theory Spec2Isabelle
  imports Main "HOL-Library.Multiset"
begin

section \<open>Python text\<close>

text \<open>
  A Python \<open>str\<close> is a sequence of Unicode code points; it is modelled as a list of
  natural numbers, one per code point. \<open>u\<close> turns an ASCII literal into such a list.
\<close>

type_synonym str = "nat list"

definition u :: "string \<Rightarrow> str" where
  "u s = map of_char s"

text \<open>
  The parts of the Unicode character database that the engine consults and that are too
  large to write down are parameters: the lower-case mapping and the word-character
  property of code points from 256 on. Below 256 both are written out. The lower-case
  form of a code point can depend on where it stands (\<open>str.lower\<close> turns a capital sigma
  at the end of a word into the final sigma), so the mapping is given the text before the
  code point and the text after it as well.
\<close>

record unicode =
  lower_hi :: "str \<Rightarrow> nat \<Rightarrow> str \<Rightarrow> str"
  word_hi :: "nat \<Rightarrow> bool"

text \<open>\<open>str.isspace\<close> of one code point; also the class \<open>\s\<close> of \<open>re\<close> on a \<open>str\<close> pattern.\<close>

definition isspace :: "nat \<Rightarrow> bool" where
  "isspace c \<longleftrightarrow> c \<in> {9, 10, 11, 12, 13, 28, 29, 30, 31, 32, 133, 160, 5760,
     8192, 8193, 8194, 8195, 8196, 8197, 8198, 8199, 8200, 8201, 8202,
     8232, 8233, 8239, 8287, 12288}"

text \<open>The line boundaries of \<open>str.splitlines\<close>.\<close>

definition is_linebreak :: "nat \<Rightarrow> bool" where
  "is_linebreak c \<longleftrightarrow> c \<in> {10, 11, 12, 13, 28, 29, 30, 133, 8232, 8233}"

text \<open>The class \<open>\w\<close> of \<open>re\<close> on a \<open>str\<close> pattern: alphanumeric or the underscore.\<close>

definition is_word :: "unicode \<Rightarrow> nat \<Rightarrow> bool" where
  "is_word U c \<longleftrightarrow>
     (48 \<le> c \<and> c \<le> 57) \<or> (65 \<le> c \<and> c \<le> 90) \<or> c = 95 \<or> (97 \<le> c \<and> c \<le> 122) \<or>
     c \<in> {170, 178, 179, 181, 185, 186, 188, 189, 190} \<or>
     (192 \<le> c \<and> c \<le> 255 \<and> c \<noteq> 215 \<and> c \<noteq> 247) \<or>
     (256 \<le> c \<and> word_hi U c)"

text \<open>The lower-case form of the code point \<open>c\<close> that stands between \<open>seen\<close> and \<open>rest\<close>.\<close>

definition lower_cp :: "unicode \<Rightarrow> str \<Rightarrow> nat \<Rightarrow> str \<Rightarrow> str" where
  "lower_cp U seen c rest =
     (if (65 \<le> c \<and> c \<le> 90) \<or> (192 \<le> c \<and> c \<le> 222 \<and> c \<noteq> 215) then [c + 32]
      else if c < 256 then [c]
      else lower_hi U seen c rest)"

text \<open>\<open>str.lower\<close>: the lower-case forms of the code points, each where it stands.\<close>

fun lower_from :: "unicode \<Rightarrow> str \<Rightarrow> str \<Rightarrow> str" where
  "lower_from U seen [] = []"
| "lower_from U seen (c # rest) = lower_cp U seen c rest @ lower_from U (seen @ [c]) rest"

definition lower :: "unicode \<Rightarrow> str \<Rightarrow> str" where
  "lower U s = lower_from U [] s"

text \<open>\<open>str.lstrip()\<close>, \<open>str.rstrip()\<close> and \<open>str.strip()\<close> without argument.\<close>

definition lstrip :: "str \<Rightarrow> str" where
  "lstrip s = dropWhile isspace s"

definition rstrip :: "str \<Rightarrow> str" where
  "rstrip s = rev (dropWhile isspace (rev s))"

definition strip :: "str \<Rightarrow> str" where
  "strip s = rstrip (lstrip s)"

text \<open>\<open>str.lstrip(chars)\<close>: drops the leading code points that occur in \<open>chars\<close>.\<close>

definition lstrip_chars :: "str \<Rightarrow> str \<Rightarrow> str" where
  "lstrip_chars chars s = dropWhile (\<lambda>c. c \<in> set chars) s"

text \<open>\<open>str.startswith\<close>.\<close>

definition startswith :: "str \<Rightarrow> str \<Rightarrow> bool" where
  "startswith s p \<longleftrightarrow> take (length p) s = p"

text \<open>
  \<open>str.splitlines()\<close>: the lines without their boundaries; a carriage return followed by
  a line feed is one boundary; a boundary at the very end opens no further line.
  \<open>cur\<close> is the line read so far.
\<close>

fun splitlines_from :: "str \<Rightarrow> str \<Rightarrow> str list" where
  "splitlines_from cur [] = (if cur = [] then [] else [cur])"
| "splitlines_from cur (c # cs) =
     (if is_linebreak c then
        (case cs of
           d # ds \<Rightarrow> if c = 13 \<and> d = 10 then cur # splitlines_from [] ds
                     else cur # splitlines_from [] cs
         | [] \<Rightarrow> cur # splitlines_from [] cs)
      else splitlines_from (cur @ [c]) cs)"

definition splitlines :: "str \<Rightarrow> str list" where
  "splitlines s = splitlines_from [] s"

text \<open>\<open>str(n)\<close> of an integer, as an f-string renders it.\<close>

fun digits :: "nat \<Rightarrow> str" where
  "digits n = (if n < 10 then [48 + n] else digits (n div 10) @ [48 + n mod 10])"

definition str_of_int :: "int \<Rightarrow> str" where
  "str_of_int i = (if i < 0 then 45 # digits (nat (- i)) else digits (nat i))"

text \<open>\<open>sep.join(xs)\<close>.\<close>

fun join :: "str \<Rightarrow> str list \<Rightarrow> str" where
  "join sep [] = []"
| "join sep [x] = x"
| "join sep (x # y # ys) = x @ sep @ join sep (y # ys)"

section \<open>Regular expressions\<close>

text \<open>
  The fragment of \<open>re\<close> that the vote pattern uses, with the backtracking semantics of
  \<open>re.match\<close>: \<open>ends r c\<close> lists, in the order in which the matcher tries them, the
  configurations in which a match of \<open>r\<close> started in \<open>c\<close> can end. A configuration is
  the code point before the current position (none at the start of the text), the rest
  of the text, and what group 1 has captured.
\<close>

datatype cclass = Whitespace | AnyOf str

datatype regex =
    Bol
  | Lit str
  | Chr cclass
  | Star cclass
  | Opt regex
  | Alt regex regex
  | Seq regex regex
  | Grp regex
  | WordB

type_synonym cfg = "nat option \<times> str \<times> str option"

fun in_class :: "cclass \<Rightarrow> nat \<Rightarrow> bool" where
  "in_class Whitespace c = isspace c"
| "in_class (AnyOf cs) c = (c \<in> set cs)"

text \<open>A greedy repetition of one class: the longest run first, then each shorter one.\<close>

fun star_ends :: "cclass \<Rightarrow> nat option \<Rightarrow> str \<Rightarrow> str option \<Rightarrow> cfg list" where
  "star_ends k p [] g = [(p, [], g)]"
| "star_ends k p (c # cs) g =
     (if in_class k c then star_ends k (Some c) cs g @ [(p, c # cs, g)]
      else [(p, c # cs, g)])"

definition word_at :: "unicode \<Rightarrow> nat option \<Rightarrow> bool" where
  "word_at U p = (case p of None \<Rightarrow> False | Some c \<Rightarrow> is_word U c)"

definition next_cp :: "str \<Rightarrow> nat option" where
  "next_cp s = (case s of [] \<Rightarrow> None | c # _ \<Rightarrow> Some c)"

fun ends :: "unicode \<Rightarrow> regex \<Rightarrow> cfg \<Rightarrow> cfg list" where
  "ends U Bol (p, s, g) = (if p = None then [(p, s, g)] else [])"
| "ends U (Lit w) (p, s, g) =
     (if startswith s w then [(if w = [] then p else Some (last w), drop (length w) s, g)]
      else [])"
| "ends U (Chr k) (p, s, g) =
     (case s of [] \<Rightarrow> [] | c # cs \<Rightarrow> if in_class k c then [(Some c, cs, g)] else [])"
| "ends U (Star k) (p, s, g) = star_ends k p s g"
| "ends U (Opt r) c = ends U r c @ [c]"
| "ends U (Alt r1 r2) c = ends U r1 c @ ends U r2 c"
| "ends U (Seq r1 r2) c = concat (map (ends U r2) (ends U r1 c))"
| "ends U (Grp r) (p, s, g) =
     map (\<lambda>(p', s', g'). (p', s', Some (take (length s - length s') s))) (ends U r (p, s, g))"
| "ends U WordB (p, s, g) =
     (if word_at U p \<noteq> word_at U (next_cp s) then [(p, s, g)] else [])"

text \<open>
  \<open>re.match(r, s)\<close>: the first way to match at the start of \<open>s\<close>, if there is one;
  the result is \<open>match.group(1)\<close>.
\<close>

definition re_match :: "unicode \<Rightarrow> regex \<Rightarrow> str \<Rightarrow> str option option" where
  "re_match U r s = (case ends U r (None, s, None) of [] \<Rightarrow> None | (p, s', g) # _ \<Rightarrow> Some g)"

section \<open>Data model (models.py)\<close>

datatype PhaseRole =
  PhaseRole_reaction | PhaseRole_argument_for | PhaseRole_argument_against
  | PhaseRole_vote | PhaseRole_summary | PhaseRole_custom

datatype VisibleTo =
  VisibleTo_all_participants | VisibleTo_moderator_only | VisibleTo_audience_only

datatype VotingMode = VotingMode_simple_majority

datatype VoteValue = VoteValue_yes | VoteValue_no | VoteValue_invalid

datatype RoundOutcome =
  RoundOutcome_yes | RoundOutcome_no | RoundOutcome_tie | RoundOutcome_invalid

datatype RunStatus =
  RunStatus_pending | RunStatus_running | RunStatus_completed | RunStatus_failed
  | RunStatus_canceled

datatype RunMode = RunMode_auto | RunMode_step

record ResourcePolicy =
  max_llm_ram_pct :: int
  reserve_ram_gb :: int
  max_parallel_requests :: int

record Participant =
  p_id :: str
  display_name :: str
  model_id :: str
  persona_prompt :: str
  color :: "str option"
  icon :: "str option"

record PhaseSpec =
  ph_id :: str
  role :: PhaseRole
  prompt_template :: str
  visible_to :: VisibleTo

record VotingConfig =
  voting_mode :: VotingMode
  allow_abstain :: bool

record DebateTemplate =
  t_id :: str
  t_name :: str
  t_topic :: str
  t_rounds :: int
  phases :: "PhaseSpec list"
  participants :: "Participant list"
  moderator :: "Participant option"
  voting :: VotingConfig
  resource_policy :: ResourcePolicy

record VoteResult =
  v_participant_id :: str
  raw_output :: str
  parsed_vote :: VoteValue

record PhaseOutput =
  phase_id :: str
  participant_id :: str
  po_output :: str

record RoundResult =
  round_index :: int
  phase_outputs :: "PhaseOutput list"
  votes :: "VoteResult list option"
  outcome :: "RoundOutcome option"
  moderator_summary :: "str option"

text \<open>\<open>created_at\<close>, a wall-clock time stamp that nothing reads, is left out of the run.\<close>

record DebateRun =
  r_id :: str
  template_id :: str
  title :: str
  topic :: str
  status :: RunStatus
  mode :: RunMode
  rounds :: "RoundResult list"

record FinalRecord =
  debate_id :: str
  f_title :: str
  final_outcome :: RoundOutcome

record StartDebateRequest =
  q_template_id :: str
  q_topic :: "str option"
  q_rounds :: "int option"
  q_mode :: RunMode

record AdvanceDebateResponse =
  debate :: DebateRun
  is_done :: bool

text \<open>
  The exceptions the engine can raise: the two \<open>ValueError\<close>s of the orchestrator with
  their messages, the \<open>IndexError\<close> of a list subscript out of range, the
  \<open>KeyError\<close> of a dictionary subscript, the \<open>ValidationError\<close> of a model
  constructor given a value its field type excludes, and a failure of the chat client
  with its message.
\<close>

datatype error =
    NotFound str
  | InvalidMode
  | IndexError
  | KeyError
  | ValidationError
  | ChatFailure str

text \<open>The validator of \<open>DebateTemplate\<close>: the constructor raises unless it holds.\<close>

definition validate_participants :: "DebateTemplate \<Rightarrow> error + DebateTemplate" where
  "validate_participants t =
     (let count = length (participants t)
      in if count \<notin> {3, 5, 7} then Inl ValidationError else Inr t)"

section \<open>Vote parsing and tally (orchestrator.py)\<close>

text \<open>The pattern \<^verbatim>\<open>^(?:vote|my vote|i vote)?\s*[:\-]?\s*(yes|no)\b\<close>.\<close>

definition vote_pattern :: regex where
  "vote_pattern =
     Seq Bol
    (Seq (Opt (Alt (Lit (u ''vote'')) (Alt (Lit (u ''my vote'')) (Lit (u ''i vote'')))))
    (Seq (Star Whitespace)
    (Seq (Opt (Chr (AnyOf (u '':-''))))
    (Seq (Star Whitespace)
    (Seq (Grp (Alt (Lit (u ''yes'')) (Lit (u ''no''))))
         WordB)))))"

text \<open>The argument of \<open>lstrip\<close>: hyphen, asterisk, bullet (U+2022), greater-than, space, tab.\<close>

definition leading_markers :: str where
  "leading_markers = [45, 42, 8226, 62, 32, 9]"

definition parse_vote :: "unicode \<Rightarrow> str \<Rightarrow> error + VoteValue" where
  "parse_vote U raw =
     (if raw = [] then Inr VoteValue_invalid
      else case splitlines (strip raw) of
        [] \<Rightarrow> Inl IndexError
      | first_line # _ \<Rightarrow>
         (let cleaned = strip (lstrip_chars leading_markers first_line);
              cleaned_lower = lower U cleaned
          in (case re_match U vote_pattern cleaned_lower of
                Some g \<Rightarrow> Inr (if g = Some (u ''yes'') then VoteValue_yes else VoteValue_no)
              | None \<Rightarrow>
                  if startswith cleaned_lower (u ''yes'') then Inr VoteValue_yes
                  else if startswith cleaned_lower (u ''no'') then Inr VoteValue_no
                  else Inr VoteValue_invalid)))"

text \<open>The loop of \<open>_tally_votes\<close> over the outputs, with the votes and the two counts.\<close>

fun tally_loop ::
  "unicode \<Rightarrow> PhaseOutput list \<Rightarrow> VoteResult list \<times> nat \<times> nat
     \<Rightarrow> error + VoteResult list \<times> nat \<times> nat" where
  "tally_loop U [] acc = Inr acc"
| "tally_loop U (po # rest) (vs, yes_count, no_count) =
     (case parse_vote U (po_output po) of
        Inl e \<Rightarrow> Inl e
      | Inr parsed \<Rightarrow>
          tally_loop U rest
            (vs @ [\<lparr>v_participant_id = participant_id po, raw_output = po_output po,
                    parsed_vote = parsed\<rparr>],
             if parsed = VoteValue_yes then yes_count + 1 else yes_count,
             if parsed = VoteValue_yes then no_count
             else if parsed = VoteValue_no then no_count + 1 else no_count))"

definition tally_votes ::
  "unicode \<Rightarrow> PhaseOutput list \<Rightarrow> error + VoteResult list \<times> RoundOutcome" where
  "tally_votes U outputs =
     (case tally_loop U outputs ([], 0, 0) of
        Inl e \<Rightarrow> Inl e
      | Inr (vs, yes_count, no_count) \<Rightarrow>
          Inr (vs,
               if yes_count > no_count then RoundOutcome_yes
               else if no_count > yes_count then RoundOutcome_no
               else if yes_count = no_count \<and> yes_count > 0 then RoundOutcome_tie
               else RoundOutcome_invalid))"

section \<open>The engine and its surroundings (orchestrator.py, storage.py)\<close>

record message =
  msg_role :: str
  msg_content :: str

text \<open>
  What the engine does not decide is a parameter \<open>E\<close>:
  \<^item> \<open>uni\<close>: the Unicode tables above;
  \<^item> \<open>fmt_outcome\<close>: how an f-string renders a \<open>RoundOutcome\<close> (the value or the member
    name, depending on the Python version);
  \<^item> \<open>chat n model messages\<close>: the answer of the chat client to its \<open>n\<close>-th request,
    \<open>Inr\<close> the generated text or \<open>Inl\<close> the text of the exception it raises;
  \<^item> \<open>latency n\<close>: when the \<open>n\<close>-th request completes, counted from the moment the
    requests of its phase are issued.
\<close>

record env =
  uni :: unicode
  fmt_outcome :: "RoundOutcome \<Rightarrow> str"
  chat :: "nat \<Rightarrow> str \<Rightarrow> message list \<Rightarrow> str + str"
  latency :: "nat \<Rightarrow> nat"

record RunContext =
  ctx_template :: DebateTemplate
  total_rounds :: int

text \<open>
  A background task running \<open>_run_to_completion\<close>, at one of its suspension points:
  \<^item> \<open>Created\<close>: scheduled by \<open>create_task\<close>, not yet run;
  \<^item> \<open>InPhase run template k round_no pos phase pending outputs rest\<close>: inside
    \<open>_execute_phase\<close>, awaiting the next completed call; \<open>pending\<close> are the results
    of \<open>run_one\<close> still to come, in the order of completion, \<open>outputs\<close> the local
    list, \<open>rest\<close> the phases of the round still to run, \<open>pos\<close> the position of
    \<open>round_result\<close> in the run's rounds, \<open>k\<close> the iterations of the loop over the
    rounds still to make, \<open>run\<close> the local variable of \<open>_run_to_completion\<close>;
  \<^item> \<open>InModerator run k pos answer\<close>: awaiting the moderator's summary;
  \<^item> \<open>Finished r\<close>: returned or raised.
\<close>

datatype task =
    Created
  | InPhase DebateRun DebateTemplate nat int nat PhaseSpec "(Participant \<times> str) list"
      "PhaseOutput list" "PhaseSpec list"
  | InModerator DebateRun nat nat "str + str"
  | Finished "error + DebateRun"

text \<open>
  The orchestrator with its store and its client. \<open>templates\<close>, \<open>runs\<close> and
  \<open>final_records\<close> are the store's fields, \<open>progress\<close> and \<open>run_context\<close> the
  orchestrator's dictionaries (the cursor's components are never negative), \<open>tasks\<close>
  the tracked background tasks, by the run they work on, and \<open>requests\<close> the number
  of requests the client has sent so far.

  A run is one object, shared by the store and by the local variables of the engine's
  functions; the store keeps it under its own id, so \<open>update_run\<close> rewrites the slot the
  run was read from. The model keeps the run in that slot and writes every assignment
  to one of its fields there.
\<close>

record orchestrator =
  templates :: "str \<rightharpoonup> DebateTemplate"
  runs :: "str \<rightharpoonup> DebateRun"
  final_records :: "FinalRecord list"
  progress :: "str \<rightharpoonup> nat \<times> nat"
  run_context :: "str \<rightharpoonup> RunContext"
  tasks :: "str \<rightharpoonup> task"
  requests :: nat

type_synonym 'a result = "(error + 'a) \<times> orchestrator"

definition modify_run :: "str \<Rightarrow> (DebateRun \<Rightarrow> DebateRun) \<Rightarrow> orchestrator \<Rightarrow> orchestrator" where
  "modify_run run_id f s =
     (case runs s run_id of None \<Rightarrow> s | Some run \<Rightarrow> s\<lparr>runs := (runs s)(run_id \<mapsto> f run)\<rparr>)"

text \<open>An assignment to a field of \<open>run.rounds[pos]\<close>.\<close>

definition modify_round ::
  "str \<Rightarrow> nat \<Rightarrow> (RoundResult \<Rightarrow> RoundResult) \<Rightarrow> orchestrator \<Rightarrow> orchestrator" where
  "modify_round run_id pos f s =
     modify_run run_id (\<lambda>run. run\<lparr>rounds := (rounds run)[pos := f (rounds run ! pos)]\<rparr>) s"

text \<open>The object behind a local variable \<open>run\<close>: what its slot holds now.\<close>

definition deref :: "orchestrator \<Rightarrow> str \<Rightarrow> DebateRun \<Rightarrow> DebateRun" where
  "deref s run_id run = (case runs s run_id of None \<Rightarrow> run | Some r \<Rightarrow> r)"

definition terminal :: "RunStatus \<Rightarrow> bool" where
  "terminal st \<longleftrightarrow> st \<in> {RunStatus_completed, RunStatus_failed, RunStatus_canceled}"

definition new_round :: "int \<Rightarrow> RoundResult" where
  "new_round i = \<lparr>round_index = i, phase_outputs = [], votes = None, outcome = None,
     moderator_summary = None\<rparr>"

subsection \<open>Prompts\<close>

definition count_votes :: "VoteValue \<Rightarrow> VoteResult list \<Rightarrow> nat" where
  "count_votes v vs = length (filter (\<lambda>x. parsed_vote x = v) vs)"

definition prior_round_transcript :: "env \<Rightarrow> DebateRun \<Rightarrow> str" where
  "prior_round_transcript E run =
     (if rounds run = [] then u ''(no prior round responses)''
      else
        let last_round = last (rounds run);
            lines = [u ''Round '' @ str_of_int (round_index last_round) @ u '' transcript:'']
              @ map (\<lambda>po. u ''- '' @ participant_id po @ u '' ('' @ phase_id po @ u ''): ''
                          @ po_output po) (phase_outputs last_round);
            vote_line =
              (case votes last_round of
                 None \<Rightarrow> []
               | Some vs \<Rightarrow>
                   if vs = [] then []
                   else [u ''- Votes: YES '' @ str_of_int (int (count_votes VoteValue_yes vs))
                         @ u '' / NO '' @ str_of_int (int (count_votes VoteValue_no vs))
                         @ u '' | Outcome: ''
                         @ fmt_outcome E (case outcome last_round of
                                            None \<Rightarrow> RoundOutcome_invalid | Some oc \<Rightarrow> oc)])
        in join [10] (lines @ vote_line))"

definition build_messages ::
  "env \<Rightarrow> DebateTemplate \<Rightarrow> str \<Rightarrow> PhaseSpec \<Rightarrow> DebateRun \<Rightarrow> int \<Rightarrow> message list" where
  "build_messages E template persona phase run round_no =
     (let history_summary = prior_round_transcript E run;
          user_content =
            u ''[Round '' @ str_of_int round_no @ u '' - '' @ ph_id phase @ u '']'' @ [10]
            @ u ''Debate topic: '' @ topic run @ [10]
            @ u ''History:'' @ [10] @ history_summary @ [10]
            @ u ''Phase prompt: '' @ prompt_template phase
      in [\<lparr>msg_role = u ''system'', msg_content = persona\<rparr>,
          \<lparr>msg_role = u ''user'', msg_content = user_content\<rparr>])"

subsection \<open>One phase\<close>

text \<open>
  \<open>run_one\<close>: the call for one participant, as the \<open>n\<close>-th request of the client. An
  exception of the client becomes the text of the result.
\<close>

definition run_one ::
  "env \<Rightarrow> DebateTemplate \<Rightarrow> PhaseSpec \<Rightarrow> DebateRun \<Rightarrow> int \<Rightarrow> nat \<Rightarrow> Participant
     \<Rightarrow> Participant \<times> str" where
  "run_one E template phase run round_no n participant =
     (participant,
      case chat E n (model_id participant)
             (build_messages E template (persona_prompt participant) phase run round_no) of
        Inl exc \<Rightarrow> u ''(error: '' @ exc @ u '')''
      | Inr raw \<Rightarrow> raw)"

text \<open>
  The tasks of one phase, one per participant in the order of the roster. Each builds
  its messages when it first runs, which is before the phase's loop sees any result, so
  all of them read the run as it is when the phase begins.
\<close>

definition fan_out ::
  "env \<Rightarrow> DebateTemplate \<Rightarrow> PhaseSpec \<Rightarrow> DebateRun \<Rightarrow> int \<Rightarrow> nat \<Rightarrow> (Participant \<times> str) list" where
  "fan_out E template phase run round_no n0 =
     map (\<lambda>(i, p). run_one E template phase run round_no (n0 + i) p)
       (enumerate 0 (participants template))"

text \<open>\<open>asyncio.as_completed\<close>: the results in the order in which the calls complete.\<close>

definition as_completed :: "env \<Rightarrow> nat \<Rightarrow> 'a list \<Rightarrow> 'a list" where
  "as_completed E n0 xs =
     map snd (sort_key (\<lambda>(i, x). latency E (n0 + i)) (enumerate 0 xs))"

definition phase_output :: "PhaseSpec \<Rightarrow> Participant \<times> str \<Rightarrow> PhaseOutput" where
  "phase_output phase r =
     \<lparr>phase_id = ph_id phase, participant_id = p_id (fst r), po_output = snd r\<rparr>"

definition append_output :: "str \<Rightarrow> nat \<Rightarrow> PhaseOutput \<Rightarrow> orchestrator \<Rightarrow> orchestrator" where
  "append_output run_id pos po s =
     modify_round run_id pos (\<lambda>rr. rr\<lparr>phase_outputs := phase_outputs rr @ [po]\<rparr>) s"

text \<open>
  \<open>_execute_phase\<close>, run without interruption. \<open>run_id\<close> and \<open>run\<close> stand for the
  argument \<open>run\<close> (its slot, and what it holds when the phase begins), \<open>pos\<close> for
  \<open>round_result\<close>.
\<close>

definition execute_phase ::
  "env \<Rightarrow> DebateTemplate \<Rightarrow> PhaseSpec \<Rightarrow> str \<Rightarrow> DebateRun \<Rightarrow> int \<Rightarrow> nat \<Rightarrow> orchestrator
     \<Rightarrow> PhaseOutput list \<times> orchestrator" where
  "execute_phase E template phase run_id run round_no pos s =
     (let results = as_completed E (requests s)
                      (fan_out E template phase run round_no (requests s));
          outputs = map (phase_output phase) results;
          s1 = s\<lparr>requests := requests s + length (participants template)\<rparr>
      in (outputs, fold (append_output run_id pos) outputs s1))"

text \<open>What both drivers do with the outputs of a phase once it is complete.\<close>

definition end_phase ::
  "env \<Rightarrow> str \<Rightarrow> nat \<Rightarrow> PhaseSpec \<Rightarrow> PhaseOutput list \<Rightarrow> orchestrator \<Rightarrow> error + orchestrator" where
  "end_phase E run_id pos phase outputs s =
     (if role phase = PhaseRole_vote then
        (case tally_votes (uni E) outputs of
           Inl e \<Rightarrow> Inl e
         | Inr (vs, oc) \<Rightarrow>
             Inr (modify_round run_id pos (\<lambda>rr. rr\<lparr>votes := Some vs, outcome := Some oc\<rparr>) s))
      else Inr s)"

text \<open>The request of \<open>_moderator_summary\<close> for a moderator \<open>m\<close>, and its answer.\<close>

definition moderator_request :: "env \<Rightarrow> Participant \<Rightarrow> DebateRun \<Rightarrow> RoundResult \<Rightarrow> nat \<Rightarrow> str + str" where
  "moderator_request E m run round_result n =
     chat E n (model_id m)
       [\<lparr>msg_role = u ''system'', msg_content = persona_prompt m\<rparr>,
        \<lparr>msg_role = u ''user'',
         msg_content = u ''Topic: '' @ topic run @ [10] @ u ''Round ''
           @ str_of_int (round_index round_result) @ u '' summary requested.''\<rparr>]"

subsection \<open>Finalization, cancellation, start\<close>

text \<open>
  \<open>_finalize\<close>. The status is assigned before the FinalRecord is built; the field
  \<open>final_outcome\<close> of a FinalRecord is a \<open>RoundOutcome\<close>, not an optional one, so the
  constructor raises when the last round has no outcome.
\<close>

definition finalize :: "str \<Rightarrow> orchestrator \<Rightarrow> unit result" where
  "finalize run_id s =
     (case (runs s run_id, run_context s run_id) of
        (Some run, Some ctx) \<Rightarrow>
          let fo = (if rounds run \<noteq> [] then outcome (last (rounds run))
                    else Some RoundOutcome_invalid);
              s1 = s\<lparr>runs := (runs s)(run_id \<mapsto> run\<lparr>status := RunStatus_completed\<rparr>)\<rparr>
          in (case fo of
                None \<Rightarrow> (Inl ValidationError, s1)
              | Some oc \<Rightarrow>
                  (Inr (),
                   s1\<lparr>final_records := final_records s1
                         @ [\<lparr>debate_id = r_id run, f_title = title run, final_outcome = oc\<rparr>],
                      progress := (progress s1)(run_id := None),
                      run_context := (run_context s1)(run_id := None)\<rparr>))
      | _ \<Rightarrow> (Inr (), s))"

definition cancel :: "str \<Rightarrow> orchestrator \<Rightarrow> DebateRun result" where
  "cancel run_id s =
     (case runs s run_id of
        None \<Rightarrow> (Inl (NotFound (u ''debate not found'')), s)
      | Some run \<Rightarrow>
          let run' = run\<lparr>status := RunStatus_canceled\<rparr>
          in (Inr run',
              s\<lparr>runs := (runs s)(run_id \<mapsto> run'),
                progress := (progress s)(run_id := None),
                run_context := (run_context s)(run_id := None)\<rparr>))"

text \<open>\<open>start_debate\<close>; \<open>new_id\<close> is the id that \<open>uuid4\<close> gives the run.\<close>

definition start_debate :: "StartDebateRequest \<Rightarrow> str \<Rightarrow> orchestrator \<Rightarrow> DebateRun result" where
  "start_debate payload new_id s =
     (case templates s (q_template_id payload) of
        None \<Rightarrow> (Inl (NotFound (u ''template not found'')), s)
      | Some template \<Rightarrow>
          let tp = (case q_topic payload of
                      None \<Rightarrow> t_topic template
                    | Some t \<Rightarrow> if t = [] then t_topic template else t);
              n = (case q_rounds payload of
                     None \<Rightarrow> t_rounds template
                   | Some r \<Rightarrow> if r = 0 then t_rounds template else r);
              run = \<lparr>r_id = new_id, template_id = t_id template, title = t_name template,
                     topic = tp, status = RunStatus_running, mode = q_mode payload,
                     rounds = []\<rparr>;
              s1 = s\<lparr>runs := (runs s)(new_id \<mapsto> run),
                     run_context := (run_context s)(new_id \<mapsto> \<lparr>ctx_template = template, total_rounds = n\<rparr>),
                     progress := (progress s)(new_id \<mapsto> (0, 0))\<rparr>
          in if q_mode payload = RunMode_auto
             then (Inr run, s1\<lparr>tasks := (tasks s1)(new_id \<mapsto> Created)\<rparr>)
             else (Inr run, s1))"

subsection \<open>Step mode\<close>

text \<open>
  \<open>_execute_phase_step\<close> from the point where the cursor is known to lie before the last
  round. \<open>run0\<close> is the run as read from the store.
\<close>

definition step_phase ::
  "env \<Rightarrow> str \<Rightarrow> RunContext \<Rightarrow> DebateRun \<Rightarrow> nat \<Rightarrow> nat \<Rightarrow> orchestrator \<Rightarrow> unit result" where
  "step_phase E run_id ctx run0 round_idx phase_idx s =
     (let round_number = int round_idx + 1;
          template = ctx_template ctx;
          run = (if length (rounds run0) \<le> round_idx
                 then run0\<lparr>rounds := rounds run0 @ [new_round round_number]\<rparr> else run0);
          s1 = s\<lparr>runs := (runs s)(run_id \<mapsto> run)\<rparr>
      in if length (phases template) \<le> phase_idx then (Inl IndexError, s1)
         else if length (rounds run) \<le> round_idx then (Inl IndexError, s1)
         else
           let phase = phases template ! phase_idx;
               (outputs, s2) = execute_phase E template phase run_id run round_number round_idx s1
           in (case end_phase E run_id round_idx phase outputs s2 of
                 Inl e \<Rightarrow> (Inl e, s2)
               | Inr s3 \<Rightarrow>
                   let last_phase = (int phase_idx = int (length (phases template)) - 1);
                       answer = (if last_phase then
                                   (case moderator template of
                                      None \<Rightarrow> None
                                    | Some m \<Rightarrow>
                                        Some (moderator_request E m run
                                                (rounds (deref s3 run_id run) ! round_idx) (requests s3)))
                                 else None)
                   in (case answer of
                         Some (Inl exc) \<Rightarrow>
                           (Inl (ChatFailure exc), s3\<lparr>requests := requests s3 + 1\<rparr>)
                       | _ \<Rightarrow>
                           let s4 = (case answer of
                                       Some (Inr summary) \<Rightarrow>
                                         modify_round run_id round_idx
                                           (\<lambda>rr. rr\<lparr>moderator_summary := Some summary\<rparr>)
                                           (s3\<lparr>requests := requests s3 + 1\<rparr>)
                                     | _ \<Rightarrow> s3);
                               cursor = (if last_phase then (round_idx + 1, 0)
                                         else (round_idx, phase_idx + 1));
                               s5 = s4\<lparr>progress := (progress s4)(run_id \<mapsto> cursor)\<rparr>
                           in if total_rounds ctx \<le> int (fst cursor) then finalize run_id s5
                              else (Inr (), s5))))"

definition execute_phase_step :: "env \<Rightarrow> str \<Rightarrow> orchestrator \<Rightarrow> unit result" where
  "execute_phase_step E run_id s =
     (case (run_context s run_id, runs s run_id) of
        (Some ctx, Some run) \<Rightarrow>
          (case progress s run_id of
             None \<Rightarrow> (Inl KeyError, s)
           | Some (round_idx, phase_idx) \<Rightarrow>
               if total_rounds ctx \<le> int round_idx then finalize run_id s
               else step_phase E run_id ctx run round_idx phase_idx s)
      | _ \<Rightarrow> (Inr (), s))"

text \<open>
  \<open>advance_debate\<close>, taken as one step, from the call to the response, as it runs
  when nothing else is served in between. The response holds the run as it is after the
  step. The same call piece by piece, with other requests served between its pieces, is
  \<open>begin_advance\<close> and \<open>call_step\<close> below.
\<close>

definition advance_debate :: "env \<Rightarrow> str \<Rightarrow> orchestrator \<Rightarrow> AdvanceDebateResponse result" where
  "advance_debate E run_id s =
     (case (run_context s run_id, runs s run_id) of
        (Some ctx, Some run) \<Rightarrow>
          if mode run \<noteq> RunMode_step then (Inl InvalidMode, s)
          else if terminal (status run) then (Inr \<lparr>debate = run, is_done = True\<rparr>, s)
          else
            (case execute_phase_step E run_id s of
               (Inl e, s') \<Rightarrow> (Inl e, s')
             | (Inr _, s') \<Rightarrow>
                 (Inr \<lparr>debate = deref s' run_id run,
                       is_done = terminal (status (deref s' run_id run))\<rparr>, s'))
      | _ \<Rightarrow> (Inl (NotFound (u ''debate not found'')), s))"

subsection \<open>Auto mode\<close>

text \<open>
  The background task runs from one suspension point to the next in one piece; between
  two such pieces any other request can be served. The task suspends where it awaits a
  call of the chat client: the next completed call of a phase, or the moderator.

  \<open>run_phases\<close> is the loop over the phases in \<open>_execute_round\<close>, entered with the
  phases still to run, up to the next suspension (\<open>Inl\<close> the task as it waits or as
  it ended) or to the end of the round (\<open>Inr\<close>).
\<close>

fun run_phases ::
  "env \<Rightarrow> str \<Rightarrow> DebateRun \<Rightarrow> DebateTemplate \<Rightarrow> nat \<Rightarrow> int \<Rightarrow> nat \<Rightarrow> PhaseSpec list
     \<Rightarrow> orchestrator \<Rightarrow> (task + unit) \<times> orchestrator" where
  "run_phases E run_id run template k round_no pos [] s =
     (case moderator template of
        None \<Rightarrow> (Inr (), s)
      | Some m \<Rightarrow>
          (Inl (InModerator run k pos
                  (moderator_request E m (deref s run_id run)
                     (rounds (deref s run_id run) ! pos) (requests s))),
           s\<lparr>requests := requests s + 1\<rparr>))"
| "run_phases E run_id run template k round_no pos (phase # rest) s =
     (let results = as_completed E (requests s)
                      (fan_out E template phase (deref s run_id run) round_no (requests s));
          s1 = s\<lparr>requests := requests s + length (participants template)\<rparr>
      in if results \<noteq> []
         then (Inl (InPhase run template k round_no pos phase results [] rest), s1)
         else (case end_phase E run_id pos phase [] s1 of
                 Inl e \<Rightarrow> (Inl (Finished (Inl e)), s1)
               | Inr s2 \<Rightarrow> run_phases E run_id run template k round_no pos rest s2))"

text \<open>
  The loop of \<open>_run_to_completion\<close> with \<open>k\<close> iterations to go, each entering
  \<open>_execute_round\<close>, and after the loop \<open>_finalize\<close> and the copy that is returned.
\<close>

fun rounds_loop :: "env \<Rightarrow> str \<Rightarrow> DebateRun \<Rightarrow> nat \<Rightarrow> orchestrator \<Rightarrow> task \<times> orchestrator" where
  "rounds_loop E run_id run 0 s =
     (case finalize run_id s of
        (Inl e, s') \<Rightarrow> (Finished (Inl e), s')
      | (Inr _, s') \<Rightarrow>
          (Finished (Inr ((deref s' run_id run)\<lparr>status := RunStatus_completed\<rparr>)), s'))"
| "rounds_loop E run_id run (Suc k) s =
     (case (run_context s run_id, runs s run_id) of
        (Some ctx, Some r) \<Rightarrow>
          let round_no = int (length (rounds r)) + 1;
              s1 = (if int (length (rounds r)) < round_no
                    then s\<lparr>runs := (runs s)(run_id \<mapsto> r\<lparr>rounds := rounds r @ [new_round round_no]\<rparr>)\<rparr>
                    else s);
              template = ctx_template ctx
          in (case run_phases E run_id run template k round_no (nat (round_no - 1))
                     (phases template) s1 of
                (Inl t, s2) \<Rightarrow> (t, s2)
              | (Inr _, s2) \<Rightarrow> rounds_loop E run_id run k s2)
      | _ \<Rightarrow> rounds_loop E run_id run k s)"

text \<open>One piece of the task \<open>t\<close> that works on \<open>run_id\<close>.\<close>

fun task_step :: "env \<Rightarrow> str \<Rightarrow> task \<Rightarrow> orchestrator \<Rightarrow> task \<times> orchestrator" where
  "task_step E run_id Created s =
     (case (run_context s run_id, runs s run_id) of
        (Some ctx, Some run) \<Rightarrow> rounds_loop E run_id run (nat (total_rounds ctx)) s
      | _ \<Rightarrow> (Finished (Inl (NotFound (u ''debate not found''))), s))"
| "task_step E run_id (InPhase run template k round_no pos phase pending outputs rest) s =
     (let po = map (phase_output phase) (take 1 pending);
          s1 = fold (append_output run_id pos) po s;
          outputs' = outputs @ po
      in if drop 1 pending \<noteq> []
         then (InPhase run template k round_no pos phase (drop 1 pending) outputs' rest, s1)
         else (case end_phase E run_id pos phase outputs' s1 of
                 Inl e \<Rightarrow> (Finished (Inl e), s1)
               | Inr s2 \<Rightarrow>
                   (case run_phases E run_id run template k round_no pos rest s2 of
                      (Inl t, s3) \<Rightarrow> (t, s3)
                    | (Inr _, s3) \<Rightarrow> rounds_loop E run_id run k s3)))"
| "task_step E run_id (InModerator run k pos answer) s =
     (case answer of
        Inl exc \<Rightarrow> (Finished (Inl (ChatFailure exc)), s)
      | Inr summary \<Rightarrow>
          rounds_loop E run_id run k
            (modify_round run_id pos (\<lambda>rr. rr\<lparr>moderator_summary := Some summary\<rparr>) s))"
| "task_step E run_id (Finished r) s = (Finished r, s)"

subsection \<open>A call of advance in flight\<close>

text \<open>
  A call of \<open>advance_debate\<close> in flight, at one of its suspension points. Like the
  background task it awaits the calls of the chat client, and other requests are served
  in between:
  \<^item> \<open>InStep ctx run round_idx phase_idx phase pending outputs\<close>: inside
    \<open>_execute_phase\<close>, awaiting the next completed call; \<open>ctx\<close>, \<open>run\<close>,
    \<open>round_idx\<close> and \<open>phase_idx\<close> are the local variables of
    \<open>_execute_phase_step\<close>, \<open>run\<close> as it was read from the store;
  \<^item> \<open>InSummary ctx run round_idx answer\<close>: awaiting the moderator's summary;
  \<^item> \<open>Returned r\<close>: returned or raised.
\<close>

datatype call =
    InStep RunContext DebateRun nat nat PhaseSpec "(Participant \<times> str) list" "PhaseOutput list"
  | InSummary RunContext DebateRun nat "str + str"
  | Returned "error + AdvanceDebateResponse"

text \<open>The response of \<open>advance_debate\<close>: the run as it is now.\<close>

definition respond :: "str \<Rightarrow> DebateRun \<Rightarrow> orchestrator \<Rightarrow> call" where
  "respond run_id run s =
     Returned (Inr \<lparr>debate = deref s run_id run, is_done = terminal (status (deref s run_id run))\<rparr>)"

text \<open>
  The end of \<open>_execute_phase_step\<close>: the cursor is stored, the run is finalized when
  the cursor has left the last round, and \<open>advance_debate\<close> returns.
\<close>

definition close_step ::
  "str \<Rightarrow> RunContext \<Rightarrow> DebateRun \<Rightarrow> nat \<times> nat \<Rightarrow> orchestrator \<Rightarrow> call \<times> orchestrator" where
  "close_step run_id ctx run cursor s =
     (let s5 = s\<lparr>progress := (progress s)(run_id \<mapsto> cursor)\<rparr>
      in if total_rounds ctx \<le> int (fst cursor)
         then (case finalize run_id s5 of
                 (Inl e, s') \<Rightarrow> (Returned (Inl e), s')
               | (Inr _, s') \<Rightarrow> (respond run_id run s', s'))
         else (respond run_id run s5, s5))"

text \<open>\<open>_execute_phase_step\<close> from the end of the phase's loop to the next suspension.\<close>

definition finish_phase ::
  "env \<Rightarrow> str \<Rightarrow> RunContext \<Rightarrow> DebateRun \<Rightarrow> nat \<Rightarrow> nat \<Rightarrow> PhaseSpec \<Rightarrow> PhaseOutput list
     \<Rightarrow> orchestrator \<Rightarrow> call \<times> orchestrator" where
  "finish_phase E run_id ctx run round_idx phase_idx phase outputs s =
     (case end_phase E run_id round_idx phase outputs s of
        Inl e \<Rightarrow> (Returned (Inl e), s)
      | Inr s3 \<Rightarrow>
          if int phase_idx = int (length (phases (ctx_template ctx))) - 1 then
            (case moderator (ctx_template ctx) of
               None \<Rightarrow> close_step run_id ctx run (round_idx + 1, 0) s3
             | Some m \<Rightarrow>
                 (InSummary ctx run round_idx
                    (moderator_request E m (deref s3 run_id run)
                       (rounds (deref s3 run_id run) ! round_idx) (requests s3)),
                  s3\<lparr>requests := requests s3 + 1\<rparr>))
          else close_step run_id ctx run (round_idx, phase_idx + 1) s3)"

text \<open>
  \<open>_execute_phase_step\<close> from the choice of the phase to the first suspension, the
  round of the cursor being in place.
\<close>

definition enter_phase ::
  "env \<Rightarrow> str \<Rightarrow> RunContext \<Rightarrow> DebateRun \<Rightarrow> nat \<Rightarrow> nat \<Rightarrow> orchestrator \<Rightarrow> call \<times> orchestrator" where
  "enter_phase E run_id ctx run round_idx phase_idx s =
     (let template = ctx_template ctx
      in if length (phases template) \<le> phase_idx then (Returned (Inl IndexError), s)
         else if length (rounds (deref s run_id run)) \<le> round_idx
         then (Returned (Inl IndexError), s)
         else
           let phase = phases template ! phase_idx;
               results = as_completed E (requests s)
                           (fan_out E template phase (deref s run_id run) (int round_idx + 1)
                              (requests s));
               s2 = s\<lparr>requests := requests s + length (participants template)\<rparr>
           in if results \<noteq> []
              then (InStep ctx run round_idx phase_idx phase results [], s2)
              else finish_phase E run_id ctx run round_idx phase_idx phase [] s2)"

text \<open>\<open>advance_debate\<close> from the call to its first suspension.\<close>

definition begin_advance :: "env \<Rightarrow> str \<Rightarrow> orchestrator \<Rightarrow> call \<times> orchestrator" where
  "begin_advance E run_id s =
     (case (run_context s run_id, runs s run_id) of
        (Some ctx, Some run) \<Rightarrow>
          if mode run \<noteq> RunMode_step then (Returned (Inl InvalidMode), s)
          else if terminal (status run)
          then (Returned (Inr \<lparr>debate = run, is_done = True\<rparr>), s)
          else
            (case progress s run_id of
               None \<Rightarrow> (Returned (Inl KeyError), s)
             | Some (round_idx, phase_idx) \<Rightarrow>
                 if total_rounds ctx \<le> int round_idx then
                   (case finalize run_id s of
                      (Inl e, s') \<Rightarrow> (Returned (Inl e), s')
                    | (Inr _, s') \<Rightarrow> (respond run_id run s', s'))
                 else if length (rounds run) \<le> round_idx then
                   enter_phase E run_id ctx run round_idx phase_idx
                     (s\<lparr>runs := (runs s)(run_id \<mapsto>
                          run\<lparr>rounds := rounds run @ [new_round (int round_idx + 1)]\<rparr>)\<rparr>)
                 else enter_phase E run_id ctx run round_idx phase_idx s)
      | _ \<Rightarrow> (Returned (Inl (NotFound (u ''debate not found''))), s))"

text \<open>One piece of the call \<open>c\<close> of \<open>advance_debate\<close> on \<open>run_id\<close>.\<close>

fun call_step :: "env \<Rightarrow> str \<Rightarrow> call \<Rightarrow> orchestrator \<Rightarrow> call \<times> orchestrator" where
  "call_step E run_id (InStep ctx run round_idx phase_idx phase pending outputs) s =
     (let po = map (phase_output phase) (take 1 pending);
          s1 = fold (append_output run_id round_idx) po s;
          outputs' = outputs @ po
      in if drop 1 pending \<noteq> []
         then (InStep ctx run round_idx phase_idx phase (drop 1 pending) outputs', s1)
         else finish_phase E run_id ctx run round_idx phase_idx phase outputs' s1)"
| "call_step E run_id (InSummary ctx run round_idx answer) s =
     (case answer of
        Inl exc \<Rightarrow> (Returned (Inl (ChatFailure exc)), s)
      | Inr summary \<Rightarrow>
          close_step run_id ctx run (round_idx + 1, 0)
            (modify_round run_id round_idx (\<lambda>rr. rr\<lparr>moderator_summary := Some summary\<rparr>) s))"
| "call_step E run_id (Returned r) s = (Returned r, s)"

subsection \<open>The engine under requests\<close>

text \<open>
  What can happen next: a request of the service (a start, a cancel, or an advance,
  which begins a call of \<open>advance_debate\<close>), the continuation of a call of
  \<open>advance_debate\<close> in flight, or the resumption of a background task. A task that
  has ended leaves the tracked tasks. The ids that \<open>uuid4\<close> hands out are new: a start
  with an id in use does not occur. The state is the orchestrator with the calls of
  \<open>advance_debate\<close> made so far, each with its run.
\<close>

datatype event =
    Start StartDebateRequest str
  | Advance str
  | Continue nat
  | Cancel str
  | Resume str

definition resume :: "env \<Rightarrow> str \<Rightarrow> orchestrator \<Rightarrow> orchestrator" where
  "resume E run_id s =
     (case tasks s run_id of
        None \<Rightarrow> s
      | Some t \<Rightarrow>
          (case task_step E run_id t s of
             (Finished r, s') \<Rightarrow> s'\<lparr>tasks := (tasks s')(run_id := None)\<rparr>
           | (t', s') \<Rightarrow> s'\<lparr>tasks := (tasks s')(run_id \<mapsto> t')\<rparr>))"

type_synonym server = "orchestrator \<times> (str \<times> call) list"

fun occur :: "env \<Rightarrow> event \<Rightarrow> server \<Rightarrow> server" where
  "occur E (Start payload new_id) (s, cs) =
     (if new_id \<in> dom (runs s) then (s, cs) else (snd (start_debate payload new_id s), cs))"
| "occur E (Advance run_id) (s, cs) =
     (case begin_advance E run_id s of (c, s') \<Rightarrow> (s', cs @ [(run_id, c)]))"
| "occur E (Continue i) (s, cs) =
     (if i < length cs
      then (case cs ! i of
              (run_id, c) \<Rightarrow>
                (case call_step E run_id c s of (c', s') \<Rightarrow> (s', cs[i := (run_id, c')])))
      else (s, cs))"
| "occur E (Cancel run_id) (s, cs) = (snd (cancel run_id s), cs)"
| "occur E (Resume run_id) (s, cs) = (resume E run_id s, cs)"

definition occur_all :: "env \<Rightarrow> event list \<Rightarrow> server \<Rightarrow> server" where
  "occur_all E evs sv = fold (occur E) evs sv"

definition empty_orchestrator :: orchestrator where
  "empty_orchestrator = \<lparr>templates = Map.empty, runs = Map.empty, final_records = [],
     progress = Map.empty, run_context = Map.empty, tasks = Map.empty, requests = 0\<rparr>"

subsection \<open>Without interruption\<close>

text \<open>A call of \<open>advance_debate\<close> and a background task, run for \<open>n\<close> pieces in a row.\<close>

fun run_call :: "env \<Rightarrow> str \<Rightarrow> nat \<Rightarrow> call \<times> orchestrator \<Rightarrow> call \<times> orchestrator" where
  "run_call E run_id 0 (c, s) = (c, s)"
| "run_call E run_id (Suc n) (c, s) = run_call E run_id n (call_step E run_id c s)"

fun run_task :: "env \<Rightarrow> str \<Rightarrow> nat \<Rightarrow> task \<times> orchestrator \<Rightarrow> task \<times> orchestrator" where
  "run_task E run_id 0 (t, s) = (t, s)"
| "run_task E run_id (Suc n) (t, s) = run_task E run_id n (task_step E run_id t s)"

section \<open>A small debate\<close>

text \<open>
  Concrete inputs for the evaluations below: three participants, a template \<open>t\<close> with a
  given number of rounds and given phases and no moderator, a client whose answer is a
  function of the messages, and the orchestrator right after the start of a run \<open>r\<close>.
\<close>

definition demo_participant :: "string \<Rightarrow> Participant" where
  "demo_participant n = \<lparr>p_id = u n, display_name = u n, model_id = u ''m'',
     persona_prompt = u ''You debate.'', color = None, icon = None\<rparr>"

definition demo_phase :: "string \<Rightarrow> PhaseRole \<Rightarrow> PhaseSpec" where
  "demo_phase n r = \<lparr>ph_id = u n, role = r, prompt_template = u ''Speak.'',
     visible_to = VisibleTo_all_participants\<rparr>"

definition demo_template :: "int \<Rightarrow> PhaseSpec list \<Rightarrow> DebateTemplate" where
  "demo_template n phs = \<lparr>t_id = u ''t'', t_name = u ''T'', t_topic = u ''topic'', t_rounds = n,
     phases = phs,
     participants = [demo_participant ''a'', demo_participant ''b'', demo_participant ''c''],
     moderator = None,
     voting = \<lparr>voting_mode = VotingMode_simple_majority, allow_abstain = False\<rparr>,
     resource_policy = \<lparr>max_llm_ram_pct = 60, reserve_ram_gb = 12, max_parallel_requests = 3\<rparr>\<rparr>"

definition plain :: unicode where
  "plain = \<lparr>lower_hi = (\<lambda>seen c rest. [c]), word_hi = (\<lambda>c. False)\<rparr>"

definition answering :: "(message list \<Rightarrow> str) \<Rightarrow> env" where
  "answering f = \<lparr>uni = plain, fmt_outcome = (\<lambda>oc. []), chat = (\<lambda>n m msgs. Inr (f msgs)),
     latency = (\<lambda>n. 0)\<rparr>"

definition demo_request :: "RunMode \<Rightarrow> StartDebateRequest" where
  "demo_request m = \<lparr>q_template_id = u ''t'', q_topic = None, q_rounds = None, q_mode = m\<rparr>"

definition started :: "RunMode \<Rightarrow> int \<Rightarrow> PhaseSpec list \<Rightarrow> orchestrator" where
  "started m n phs =
     snd (start_debate (demo_request m) (u ''r'')
            (empty_orchestrator\<lparr>templates := [u ''t'' \<mapsto> demo_template n phs]\<rparr>))"

definition status_of :: "orchestrator \<Rightarrow> str \<Rightarrow> RunStatus option" where
  "status_of s run_id = map_option status (runs s run_id)"

section \<open>The tally, as the specification words it\<close>

text \<open>
  The outcome of a round with \<open>y\<close> votes for and \<open>n\<close> against: YES if there are more
  votes for, NO if there are more against, TIE if the counts are equal and positive,
  INVALID if both are zero.
\<close>

definition majority :: "nat \<Rightarrow> nat \<Rightarrow> RoundOutcome" where
  "majority y n =
     (if y > n then RoundOutcome_yes else if n > y then RoundOutcome_no
      else if y > 0 then RoundOutcome_tie else RoundOutcome_invalid)"

text \<open>The texts that have a first non-empty line, and the empty text.\<close>

definition parses :: "str \<Rightarrow> bool" where
  "parses raw \<longleftrightarrow> raw = [] \<or> (\<exists>c\<in>set raw. \<not> isspace c)"

definition vote_of :: "PhaseOutput \<Rightarrow> VoteValue \<Rightarrow> VoteResult" where
  "vote_of po v =
     \<lparr>v_participant_id = participant_id po, raw_output = po_output po, parsed_vote = v\<rparr>"

definition demo_output :: "string \<Rightarrow> string \<Rightarrow> PhaseOutput" where
  "demo_output who txt = \<lparr>phase_id = u ''vote'', participant_id = u who, po_output = u txt\<rparr>"

section \<open>The vote heuristic, as the specification words it\<close>

text \<open>What \<open>re.match\<close> returns for a list of ends: the group of the first.\<close>

definition first_end :: "cfg list \<Rightarrow> str option option" where
  "first_end cs = (case cs of [] \<Rightarrow> None | (p, s, g) # _ \<Rightarrow> Some g)"

text \<open>The parts of the vote pattern: the word with its boundary, then what precedes it.\<close>

definition yes_no :: regex where
  "yes_no = Seq (Grp (Alt (Lit (u ''yes'')) (Lit (u ''no'')))) WordB"

text \<open>
  The heuristic as the specification words it. \<open>whole_word U w s\<close>: the text \<open>s\<close> begins
  with the word \<open>w\<close>, and the word ends there.
\<close>

definition whole_word :: "unicode \<Rightarrow> str \<Rightarrow> str \<Rightarrow> bool" where
  "whole_word U w s \<longleftrightarrow> startswith s w \<and> \<not> word_at U (next_cp (drop (length w) s))"

definition sp_yes_no :: regex where
  "sp_yes_no = Seq (Star Whitespace) yes_no"

definition sep_tail :: regex where
  "sep_tail = Seq (Opt (Chr (AnyOf (u '':-'')))) sp_yes_no"

definition vote_tail :: regex where
  "vote_tail = Seq (Star Whitespace) sep_tail"

definition marker_rx :: regex where
  "marker_rx = Alt (Lit (u ''vote'')) (Alt (Lit (u ''my vote'')) (Lit (u ''i vote'')))"

text \<open>An optional marker "vote", "my vote" or "i vote" at the start.\<close>

definition skip_marker :: "str \<Rightarrow> str" where
  "skip_marker s =
     (if startswith s (u ''vote'') then drop (length (u ''vote'')) s
      else if startswith s (u ''my vote'') then drop (length (u ''my vote'')) s
      else if startswith s (u ''i vote'') then drop (length (u ''i vote'')) s
      else s)"

text \<open>An optional colon or dash.\<close>

definition skip_colon :: "str \<Rightarrow> str" where
  "skip_colon s = (case s of [] \<Rightarrow> [] | c # cs \<Rightarrow> if c = 58 \<or> c = 45 then cs else s)"

text \<open>Optional whitespace, an optional colon or dash, optional whitespace.\<close>

definition skip_sep :: "str \<Rightarrow> str" where
  "skip_sep s = dropWhile isspace (skip_colon (dropWhile isspace s))"

text \<open>
  The vote of a cleaned, lower-cased line: after the optional marker and separator the
  whole word "yes" or "no"; failing that a line that begins with "yes" or "no";
  otherwise INVALID.
\<close>

definition classify :: "unicode \<Rightarrow> str \<Rightarrow> VoteValue" where
  "classify U l =
     (let t = skip_sep (skip_marker l)
      in if whole_word U (u ''yes'') t then VoteValue_yes
         else if whole_word U (u ''no'') t then VoteValue_no
         else if startswith l (u ''yes'') then VoteValue_yes
         else if startswith l (u ''no'') then VoteValue_no
         else VoteValue_invalid)"

text \<open>
  The first non-empty line of a text: from its first character that is no whitespace up
  to the next line boundary.
\<close>

definition first_nonempty_line :: "str \<Rightarrow> str" where
  "first_nonempty_line raw = takeWhile (\<lambda>c. \<not> is_linebreak c) (dropWhile isspace raw)"

text \<open>
  The bullet and arrow markers that may lead a line: hyphen, asterisk, bullet (U+2022)
  and greater-than sign, and the space and the tab between them.
\<close>

definition is_marker :: "nat \<Rightarrow> bool" where
  "is_marker c \<longleftrightarrow> c = 45 \<or> c = 42 \<or> c = 8226 \<or> c = 62 \<or> c = 32 \<or> c = 9"

text \<open>The leading markers and the whitespace around what is left are removed.\<close>

definition clean_line :: "str \<Rightarrow> str" where
  "clean_line l = strip (dropWhile is_marker l)"

definition add_outputs :: "nat \<Rightarrow> PhaseOutput list \<Rightarrow> DebateRun \<Rightarrow> DebateRun" where
  "add_outputs pos outs r =
     r\<lparr>rounds := (rounds r)[pos := (rounds r ! pos)\<lparr>phase_outputs := phase_outputs (rounds r ! pos) @ outs\<rparr>]\<rparr>"

text \<open>A client whose second request of a phase times out.\<close>

definition second_fails :: env where
  "second_fails = \<lparr>uni = plain, fmt_outcome = (\<lambda>oc. []),
     chat = (\<lambda>n m msgs. if n = 1 then Inl (u ''timed out'') else Inr (u ''fine'')),
     latency = (\<lambda>n. 0)\<rparr>"

text \<open>A run in its first round, and an orchestrator that holds nothing else.\<close>

definition demo_run :: DebateRun where
  "demo_run = \<lparr>r_id = u ''r'', template_id = u ''t'', title = u ''T'', topic = u ''topic'',
     status = RunStatus_running, mode = RunMode_step, rounds = [new_round 1]\<rparr>"

definition holding :: "DebateRun \<Rightarrow> orchestrator" where
  "holding r = empty_orchestrator\<lparr>runs := [r_id r \<mapsto> r]\<rparr>"

text \<open>
  A step-mode run under way: it has its context, the cursor is at round \<open>r\<close>, phase
  \<open>p\<close>, the run is running, it has the rounds before the cursor's and, once the
  first phase of a round has run, that round too, and no round has an outcome.
\<close>

definition stepping :: "orchestrator \<Rightarrow> str \<Rightarrow> RunContext \<Rightarrow> nat \<Rightarrow> nat \<Rightarrow> bool" where
  "stepping s run_id ctx r p \<longleftrightarrow>
     run_context s run_id = Some ctx \<and> progress s run_id = Some (r, p) \<and>
     (\<exists>run. runs s run_id = Some run \<and> mode run = RunMode_step
        \<and> status run = RunStatus_running
        \<and> length (rounds run) = (if p = 0 then r else Suc r)
        \<and> list_all (\<lambda>rr. outcome rr = None) (rounds run))"

definition three_phases :: "PhaseSpec list" where
  "three_phases = [demo_phase ''p1'' PhaseRole_reaction, demo_phase ''p2'' PhaseRole_argument_for,
     demo_phase ''p3'' PhaseRole_argument_against]"

text \<open>A client that has every participant vote YES, and the run of one vote phase under it.\<close>

definition yes_votes :: env where
  "yes_votes = answering (\<lambda>msgs. u ''Vote: YES'')"

definition voted :: orchestrator where
  "voted = snd (advance_debate yes_votes (u ''r'')
                  (started RunMode_step 1 [demo_phase ''v'' PhaseRole_vote]))"

text \<open>
  How the engine's own steps can change what the store and the context hold for a run:
  the context can only go, the status can only become completed, and only while the run
  has its context, and a run without context keeps the number of its rounds.
\<close>

definition evolves_at :: "str \<Rightarrow> orchestrator \<Rightarrow> orchestrator \<Rightarrow> bool" where
  "evolves_at run_id s s' \<longleftrightarrow>
     (run_context s' run_id = None \<or> run_context s' run_id = run_context s run_id)
     \<and> (status_of s' run_id = status_of s run_id
          \<or> (run_context s run_id \<noteq> None \<and> status_of s' run_id = Some RunStatus_completed))
     \<and> (run_context s run_id = None \<longrightarrow>
          map_option (\<lambda>r. length (rounds r)) (runs s' run_id)
            = map_option (\<lambda>r. length (rounds r)) (runs s run_id))"

text \<open>
  What the engine keeps true of every run: a run that is canceled or failed has no
  context.
\<close>

definition ended_without_context :: "orchestrator \<Rightarrow> str \<Rightarrow> bool" where
  "ended_without_context s run_id \<longleftrightarrow>
     (status_of s run_id = Some RunStatus_canceled \<or> status_of s run_id = Some RunStatus_failed
        \<longrightarrow> run_context s run_id = None)"

text \<open>The store of the small debate before any run is started.\<close>

definition demo_store :: "int \<Rightarrow> PhaseSpec list \<Rightarrow> orchestrator" where
  "demo_store n phs = empty_orchestrator\<lparr>templates := [u ''t'' \<mapsto> demo_template n phs]\<rparr>"

text \<open>The number of RoundResults of a run.\<close>

definition round_count :: "orchestrator \<Rightarrow> str \<Rightarrow> nat option" where
  "round_count s run_id = map_option (\<lambda>r. length (rounds r)) (runs s run_id)"

text \<open>A run that is canceled, without context, and has \<open>n\<close> rounds.\<close>

definition frozen :: "orchestrator \<Rightarrow> str \<Rightarrow> nat \<Rightarrow> bool" where
  "frozen s run_id n \<longleftrightarrow>
     run_context s run_id = None \<and> status_of s run_id = Some RunStatus_canceled
     \<and> round_count s run_id = Some n"

text \<open>
  An auto-mode run of one round with two phases under a client that answers "ok", at
  the moment when the background task has begun the round and awaits the calls of the
  first phase, and the same after a cancel at that moment. \<open>output_phases\<close> lists the
  phases of the outputs recorded for run \<open>r\<close>.
\<close>

definition ok_env :: env where
  "ok_env = answering (\<lambda>msgs. u ''ok'')"

definition two_phases :: "PhaseSpec list" where
  "two_phases = [demo_phase ''p1'' PhaseRole_reaction, demo_phase ''p2'' PhaseRole_reaction]"

definition in_flight :: orchestrator where
  "in_flight = resume ok_env (u ''r'') (started RunMode_auto 1 two_phases)"

definition canceled_in_flight :: orchestrator where
  "canceled_in_flight = snd (cancel (u ''r'') in_flight)"

definition output_phases :: "orchestrator \<Rightarrow> str list option" where
  "output_phases s =
     map_option (\<lambda>r. map phase_id (concat (map phase_outputs (rounds r)))) (runs s (u ''r''))"

section \<open>Vote parsing: where it raises\<close>

lemma splitlines_from_Nil_iff: "splitlines_from cur s = [] \<longleftrightarrow> cur = [] \<and> s = []"
  by (induction cur s rule: splitlines_from.induct) (auto split: list.splits)

lemma strip_all_space:
  assumes "\<forall>c\<in>set raw. isspace c"
  shows "strip raw = []"
proof -
  from assms have "dropWhile isspace raw = []" by simp
  then show ?thesis
    unfolding strip_def lstrip_def rstrip_def by (simp del: dropWhile_eq_Nil_conv)
qed

lemma parse_vote_whitespace_only:
  "raw \<noteq> [] \<Longrightarrow> \<forall>c\<in>set raw. isspace c \<Longrightarrow> parse_vote U raw = Inl IndexError"
  by (simp add: parse_vote_def strip_all_space splitlines_def)

text \<open>
  C10. The claim: vote parsing is total, it returns a vote for every text, also for a
  non-empty text of whitespace only. The code guards the empty text alone: on a single
  space \<open>raw.strip()\<close> is empty, \<open>splitlines()\<close> gives no line, and the subscript
  \<open>[0]\<close> raises \<open>IndexError\<close>.
\<close>

theorem parse_vote_blank_raises: "parse_vote U (u '' '') = Inl IndexError"
  by (simp add: parse_vote_def u_def strip_def lstrip_def rstrip_def isspace_def splitlines_def)

section \<open>Advancing a run that has ended\<close>

text \<open>
  C1. The claim: advancing a run whose status is terminal returns the run unchanged with
  \<open>done = true\<close>, and advancing a run that is not in step mode fails with the
  invalid-mode error. \<open>advance_debate\<close> has both branches, but it first looks the run up
  in \<open>_context\<close>, and \<open>cancel\<close> and \<open>_finalize\<close> remove the run from there: a canceled
  step-mode run is terminal and its advance fails with "debate not found", and so does
  the advance of a canceled auto-mode run.
\<close>

theorem advance_canceled_not_found:
  "status_of (snd (cancel (u ''r'') (started RunMode_step 1 [demo_phase ''p'' PhaseRole_vote])))
     (u ''r'') = Some RunStatus_canceled
   \<and> fst (advance_debate E (u ''r'')
          (snd (cancel (u ''r'') (started RunMode_step 1 [demo_phase ''p'' PhaseRole_vote]))))
     = Inl (NotFound (u ''debate not found''))
   \<and> fst (advance_debate E (u ''r'')
          (snd (cancel (u ''r'') (started RunMode_auto 1 [demo_phase ''p'' PhaseRole_vote]))))
     = Inl (NotFound (u ''debate not found''))"
  by code_simp

section \<open>The history in the prompts\<close>

text \<open>
  C2. The claim: in round 1 the history in each participant's prompt is the placeholder
  "(no prior round responses)", and in general it is the transcript of the previous
  round. Both drivers append the round to the run before its first phase runs, and
  \<open>_prior_round_transcript\<close> renders the last round of the run: the history is the
  transcript of the round in progress. Here the client answers with the prompt it is
  sent, so the outputs of the first phase of a new run show the three prompts.
\<close>

theorem first_prompt_history_is_current_round:
  "map_option (\<lambda>r. map po_output (phase_outputs (rounds r ! 0)))
     (runs (snd (advance_debate (answering (\<lambda>msgs. msg_content (last msgs))) (u ''r'')
                   (started RunMode_step 1 [demo_phase ''p1'' PhaseRole_reaction,
                      demo_phase ''p2'' PhaseRole_reaction]))) (u ''r''))
   = Some (replicate 3
       (u ''[Round 1 - p1]'' @ [10] @ u ''Debate topic: topic'' @ [10] @ u ''History:'' @ [10]
        @ u ''Round 1 transcript:'' @ [10] @ u ''Phase prompt: Speak.''))"
  by code_simp

section \<open>Finalization\<close>

text \<open>
  C4. The claim: the FinalRecord's outcome is the last round's outcome, and INVALID when
  no round ran and when the last round recorded none. \<open>_finalize\<close> defaults to INVALID
  only for a run without rounds; when the last round has no outcome it passes \<open>None\<close>
  to the FinalRecord, whose field excludes it. A run of one round with one phase that is
  no vote ends so: the advance raises, the status is already completed, and no
  FinalRecord is written.
\<close>

theorem finalize_without_outcome_raises:
  "fst (advance_debate (answering (\<lambda>msgs. u ''ok'')) (u ''r'')
          (started RunMode_step 1 [demo_phase ''p1'' PhaseRole_reaction])) = Inl ValidationError
   \<and> final_records (snd (advance_debate (answering (\<lambda>msgs. u ''ok'')) (u ''r'')
          (started RunMode_step 1 [demo_phase ''p1'' PhaseRole_reaction]))) = []
   \<and> status_of (snd (advance_debate (answering (\<lambda>msgs. u ''ok'')) (u ''r'')
          (started RunMode_step 1 [demo_phase ''p1'' PhaseRole_reaction]))) (u ''r'')
     = Some RunStatus_completed"
  by code_simp

section \<open>The tally\<close>

lemmas pv_defs = parse_vote_def u_def strip_def lstrip_def rstrip_def isspace_def splitlines_def
  is_linebreak_def leading_markers_def lstrip_chars_def lower_def lower_cp_def re_match_def
  vote_pattern_def startswith_def word_at_def next_cp_def is_word_def

lemma parse_vote_examples:
  "parse_vote U (u ''Vote: YES'') = Inr VoteValue_yes"
  "parse_vote U (u ''- no, because X'') = Inr VoteValue_no"
  "parse_vote U (u ''maybe'') = Inr VoteValue_invalid"
  "parse_vote U (u '''') = Inr VoteValue_invalid"
  "parse_vote U (u ''I vote yes'') = Inr VoteValue_yes"
  by (simp_all add: pv_defs)

text \<open>Lines that only the stripping of the markers makes a vote.\<close>

lemma parse_vote_marker_examples:
  "parse_vote U (u ''* yes'') = Inr VoteValue_yes"
  "parse_vote U (u ''> no'') = Inr VoteValue_no"
  "parse_vote U (8226 # u '' yes, I agree'') = Inr VoteValue_yes"
  "parse_vote U (u ''- * > yes'') = Inr VoteValue_yes"
  "parse_vote U (u ''# yes'') = Inr VoteValue_invalid"
  by (simp_all add: pv_defs)


lemma strip_nonempty:
  assumes "\<exists>c\<in>set raw. \<not> isspace c"
  shows "strip raw \<noteq> []"
proof -
  from assms have "\<exists>c\<in>set (dropWhile isspace raw). \<not> isspace c"
    by (metis dropWhile_eq_Nil_conv hd_dropWhile list.set_sel(1))
  then have "\<exists>c\<in>set (rev (dropWhile isspace raw)). \<not> isspace c" by simp
  then have "dropWhile isspace (rev (dropWhile isspace raw)) \<noteq> []"
    by (simp only: dropWhile_eq_Nil_conv) blast
  then show ?thesis
    unfolding strip_def lstrip_def rstrip_def by (simp del: dropWhile_eq_Nil_conv)
qed

lemma parse_vote_defined:
  assumes "parses raw"
  shows "\<exists>v. parse_vote U raw = Inr v"
proof (cases "raw = []")
  case True
  then show ?thesis by (simp add: parse_vote_def)
next
  case False
  with assms have "strip raw \<noteq> []"
    using strip_nonempty[of raw] by (auto simp: parses_def)
  then have "splitlines (strip raw) \<noteq> []"
    by (simp add: splitlines_def splitlines_from_Nil_iff)
  then obtain l ls where "splitlines (strip raw) = l # ls"
    by (cases "splitlines (strip raw)") auto
  with False show ?thesis
    by (simp add: parse_vote_def Let_def split: option.split)
qed

lemma tally_loop_result:
  assumes "\<forall>po\<in>set outs. parse_vote U (po_output po) = Inr (pv po)"
  shows "tally_loop U outs (vs, y, n) =
           Inr (vs @ map (\<lambda>po. vote_of po (pv po)) outs,
                y + length (filter (\<lambda>po. pv po = VoteValue_yes) outs),
                n + length (filter (\<lambda>po. pv po = VoteValue_no) outs))"
  using assms
  by (induction outs arbitrary: vs y n) (auto simp: vote_of_def)

lemma tally_votes_result:
  assumes "\<forall>po\<in>set outs. parse_vote U (po_output po) = Inr (pv po)"
  shows "tally_votes U outs =
           Inr (map (\<lambda>po. vote_of po (pv po)) outs,
                majority (length (filter (\<lambda>po. pv po = VoteValue_yes) outs))
                         (length (filter (\<lambda>po. pv po = VoteValue_no) outs)))"
  by (simp add: tally_votes_def tally_loop_result[OF assms] majority_def)

lemma count_votes_map:
  "count_votes v (map (\<lambda>po. vote_of po (pv po)) outs) = length (filter (\<lambda>po. pv po = v) outs)"
  by (induction outs) (auto simp: count_votes_def vote_of_def)

text \<open>
  The tally on outputs whose texts can be parsed (each is empty or has a character that
  is no whitespace): it returns one VoteResult per output, in the order of the outputs,
  each with the participant, the text and the parsed vote of its output, and the outcome
  is the majority of the YES and NO votes among them: YES if more YES, NO if more NO, TIE
  if equal and positive, INVALID if both zero; INVALID votes are in the list and in
  neither count. In particular the votes YES, YES, NO give YES; YES, NO give TIE;
  INVALID, INVALID give INVALID; YES, NO, NO give NO.
\<close>

theorem tally_votes_outcome:
  assumes "\<forall>po\<in>set outs. parses (po_output po)"
  shows "\<exists>vs oc. tally_votes U outs = Inr (vs, oc)
     \<and> length vs = length outs
     \<and> (\<forall>i<length outs. v_participant_id (vs ! i) = participant_id (outs ! i)
           \<and> raw_output (vs ! i) = po_output (outs ! i)
           \<and> parse_vote U (po_output (outs ! i)) = Inr (parsed_vote (vs ! i)))
     \<and> oc = majority (count_votes VoteValue_yes vs) (count_votes VoteValue_no vs)
     \<and> (map parsed_vote vs = [VoteValue_yes, VoteValue_yes, VoteValue_no]
          \<longrightarrow> oc = RoundOutcome_yes)
     \<and> (map parsed_vote vs = [VoteValue_yes, VoteValue_no] \<longrightarrow> oc = RoundOutcome_tie)
     \<and> (map parsed_vote vs = [VoteValue_invalid, VoteValue_invalid]
          \<longrightarrow> oc = RoundOutcome_invalid)
     \<and> (map parsed_vote vs = [VoteValue_yes, VoteValue_no, VoteValue_no]
          \<longrightarrow> oc = RoundOutcome_no)"
proof -
  from assms have "\<forall>po\<in>set outs. \<exists>v. parse_vote U (po_output po) = Inr v"
    by (blast intro: parse_vote_defined)
  then obtain pv where pv: "\<forall>po\<in>set outs. parse_vote U (po_output po) = Inr (pv po)"
    by metis
  let ?vs = "map (\<lambda>po. vote_of po (pv po)) outs"
  let ?oc = "majority (count_votes VoteValue_yes ?vs) (count_votes VoteValue_no ?vs)"
  have t: "tally_votes U outs = Inr (?vs, ?oc)"
    by (simp add: tally_votes_result[OF pv] count_votes_map)
  have ex: "map parsed_vote ?vs = ps \<Longrightarrow>
      ?oc = majority (length (filter (\<lambda>v. v = VoteValue_yes) ps))
                     (length (filter (\<lambda>v. v = VoteValue_no) ps))" for ps
    by (auto simp: count_votes_def filter_map comp_def)
  have "length ?vs = length outs" by simp
  moreover have "\<forall>i<length outs. v_participant_id (?vs ! i) = participant_id (outs ! i)
           \<and> raw_output (?vs ! i) = po_output (outs ! i)
           \<and> parse_vote U (po_output (outs ! i)) = Inr (parsed_vote (?vs ! i))"
    using pv by (simp add: vote_of_def)
  moreover have "map parsed_vote ?vs = [VoteValue_yes, VoteValue_yes, VoteValue_no]
      \<longrightarrow> ?oc = RoundOutcome_yes"
    using ex by (auto simp: majority_def)
  moreover have "map parsed_vote ?vs = [VoteValue_yes, VoteValue_no] \<longrightarrow> ?oc = RoundOutcome_tie"
    using ex by (auto simp: majority_def)
  moreover have "map parsed_vote ?vs = [VoteValue_invalid, VoteValue_invalid]
      \<longrightarrow> ?oc = RoundOutcome_invalid"
    using ex by (auto simp: majority_def)
  moreover have "map parsed_vote ?vs = [VoteValue_yes, VoteValue_no, VoteValue_no]
      \<longrightarrow> ?oc = RoundOutcome_no"
    using ex by (auto simp: majority_def)
  ultimately show ?thesis using t by blast
qed

theorem tally_votes_outcome_witness:
  "parses (po_output (demo_output ''a'' ''Vote: YES''))
   \<and> parses (po_output (demo_output ''b'' ''I vote yes''))
   \<and> parses (po_output (demo_output ''c'' ''- no, because X''))
   \<and> (\<exists>vs oc. tally_votes plain
         [demo_output ''a'' ''Vote: YES'', demo_output ''b'' ''I vote yes'',
          demo_output ''c'' ''- no, because X''] = Inr (vs, oc)
        \<and> map parsed_vote vs = [VoteValue_yes, VoteValue_yes, VoteValue_no]
        \<and> oc = RoundOutcome_yes)"
proof -
  let ?outs = "[demo_output ''a'' ''Vote: YES'', demo_output ''b'' ''I vote yes'',
                demo_output ''c'' ''- no, because X'']"
  have h: "\<forall>po\<in>set ?outs. parses (po_output po)"
    by (simp add: demo_output_def parses_def u_def isspace_def)
  from tally_votes_outcome[OF h, of plain] obtain vs oc where
    t: "tally_votes plain ?outs = Inr (vs, oc)"
    and y: "map parsed_vote vs = [VoteValue_yes, VoteValue_yes, VoteValue_no]
              \<longrightarrow> oc = RoundOutcome_yes"
    by blast
  have "\<exists>oc'. tally_votes plain ?outs =
          Inr ([vote_of (demo_output ''a'' ''Vote: YES'') VoteValue_yes,
                vote_of (demo_output ''b'' ''I vote yes'') VoteValue_yes,
                vote_of (demo_output ''c'' ''- no, because X'') VoteValue_no], oc')"
    by (simp add: tally_votes_def demo_output_def parse_vote_examples vote_of_def)
  with t have m: "map parsed_vote vs = [VoteValue_yes, VoteValue_yes, VoteValue_no]"
    by (auto simp: vote_of_def)
  with y have oc: "oc = RoundOutcome_yes" by simp
  have r: "\<exists>vs oc. tally_votes plain ?outs = Inr (vs, oc)
        \<and> map parsed_vote vs = [VoteValue_yes, VoteValue_yes, VoteValue_no]
        \<and> oc = RoundOutcome_yes"
    using t m oc by - (rule exI[of _ vs], rule exI[of _ oc], intro conjI, assumption+)
  from h have "parses (po_output (demo_output ''a'' ''Vote: YES''))"
    and "parses (po_output (demo_output ''b'' ''I vote yes''))"
    and "parses (po_output (demo_output ''c'' ''- no, because X''))"
    by simp_all
  with r show ?thesis by (intro conjI)
qed

text \<open>
  C6. The claim: for every list of outputs of a vote phase the tally produces one
  VoteResult per output and an outcome, a vote parsed as INVALID contributing its
  VoteResult and counting for neither side. The code does so only when every text can be
  parsed. When three participants answer "yes", a single space and "no", the tally parses
  the second text, \<open>_parse_vote\<close> raises \<open>IndexError\<close> on it (the defect of C10),
  nothing catches it, and the tally returns neither VoteResults nor an outcome, where
  the claim has three VoteResults, the second of them INVALID, and the outcome TIE.
\<close>

theorem tally_votes_blank_raises:
  "tally_votes U [demo_output ''a'' ''yes'', demo_output ''b'' '' '', demo_output ''c'' ''no'']
     = Inl IndexError"
proof -
  have "parse_vote U (u ''yes'') = Inr VoteValue_yes"
    by (simp add: pv_defs)
  moreover have "parse_vote U (u '' '') = Inl IndexError"
    by (simp add: pv_defs)
  ultimately show ?thesis
    by (simp add: tally_votes_def demo_output_def)
qed

section \<open>The vote heuristic\<close>

lemma first_end_append:
  "first_end (xs @ ys) = (case first_end xs of None \<Rightarrow> first_end ys | Some g \<Rightarrow> Some g)"
  by (cases xs) (auto simp: first_end_def)

lemma first_end_Nil [simp]: "first_end [] = None"
  by (simp add: first_end_def)

lemma re_match_first: "re_match U r s = first_end (ends U r (None, s, None))"
  by (simp add: re_match_def first_end_def)

lemma startswith_Nil [simp]: "startswith s []"
  by (simp add: startswith_def)

lemma startswith_Cons:
  "startswith s (c # w) = (case s of [] \<Rightarrow> False | d # t \<Rightarrow> d = c \<and> startswith t w)"
  by (cases s) (auto simp: startswith_def)

lemma startswith_append: "startswith s w \<Longrightarrow> s = w @ drop (length w) s"
  by (metis append_take_drop_id startswith_def)

lemma is_word_letters: "97 \<le> c \<Longrightarrow> c \<le> 122 \<Longrightarrow> is_word U c"
  by (simp add: is_word_def)

lemma ends_yes_no:
  "ends U yes_no (p, s, g) =
     (if whole_word U (u ''yes'') s then [(Some 115, drop (length (u ''yes'')) s, Some (u ''yes''))]
      else if whole_word U (u ''no'') s then [(Some 111, drop (length (u ''no'')) s, Some (u ''no''))]
      else [])"
proof -
  have y: "ends U (Lit (u ''yes'')) (p, s, g) =
      (if startswith s (u ''yes'') then [(Some 115, drop (length (u ''yes'')) s, g)] else [])"
    by (simp add: u_def)
  have n: "ends U (Lit (u ''no'')) (p, s, g) =
      (if startswith s (u ''no'') then [(Some 111, drop (length (u ''no'')) s, g)] else [])"
    by (simp add: u_def)
  have ex: "\<not> (startswith s (u ''yes'') \<and> startswith s (u ''no''))"
    by (auto simp: u_def startswith_Cons split: list.splits)
  have ty: "startswith s (u ''yes'') \<Longrightarrow> take (length s - length (drop (length (u ''yes'')) s)) s = u ''yes''"
    by (auto simp: u_def startswith_Cons split: list.splits)
  have tn: "startswith s (u ''no'') \<Longrightarrow> take (length s - length (drop (length (u ''no'')) s)) s = u ''no''"
    by (auto simp: u_def startswith_Cons split: list.splits)
  have w: "word_at U (Some 115)" "word_at U (Some 111)"
    by (simp_all add: word_at_def is_word_def)
  show ?thesis
    using ex ty tn w
    by (simp add: yes_no_def y n whole_word_def) (auto simp: u_def)
qed

lemma vote_pattern_parts: "vote_pattern = Seq Bol (Seq (Opt marker_rx) vote_tail)"
  by (simp add: vote_pattern_def marker_rx_def vote_tail_def sep_tail_def sp_yes_no_def yes_no_def)

lemma ends_yes_no_prev: "ends U yes_no (p, s, g) = ends U yes_no (None, s, g)"
  by (simp add: ends_yes_no)

lemma space_not_mark:
  "isspace c \<Longrightarrow> c \<noteq> 121 \<and> c \<noteq> 110 \<and> c \<noteq> 58 \<and> c \<noteq> 45 \<and> c \<noteq> 118 \<and> c \<noteq> 109 \<and> c \<noteq> 105"
  by (auto simp: isspace_def)

lemma ends_yes_no_other:
  "c \<noteq> 121 \<Longrightarrow> c \<noteq> 110 \<Longrightarrow> ends U yes_no (p, c # cs, g) = []"
  by (simp add: ends_yes_no whole_word_def u_def startswith_Cons)

lemma star_skip:
  assumes "\<And>p c cs. isspace c \<Longrightarrow> ends U X (p, c # cs, g) = []"
    and "\<And>p s. ends U X (p, s, g) = ends U X (None, s, g)"
  shows "concat (map (ends U X) (star_ends Whitespace p s g))
           = ends U X (None, dropWhile isspace s, g)"
proof (induction s arbitrary: p)
  case Nil
  show ?case using assms(2)[of p "[]"] by simp
next
  case (Cons c cs)
  show ?case
  proof (cases "isspace c")
    case True
    with Cons assms(1)[of c p cs] show ?thesis by simp
  next
    case False
    then show ?thesis using assms(2)[of p "c # cs"] by simp
  qed
qed

lemma ends_sp_yes_no:
  "ends U sp_yes_no (p, s, g) = ends U yes_no (None, dropWhile isspace s, g)"
  unfolding sp_yes_no_def
  using star_skip[of U yes_no g p s] ends_yes_no_prev[of U _ _ g] space_not_mark
  by (simp add: ends_yes_no_other)

lemma ends_sep_tail:
  "ends U sep_tail (p, s, g) = ends U yes_no (None, dropWhile isspace (skip_colon s), g)"
proof (cases s)
  case Nil
  then show ?thesis by (simp add: sep_tail_def ends_sp_yes_no skip_colon_def)
next
  case (Cons c cs)
  show ?thesis
  proof (cases "c = 58 \<or> c = 45")
    case True
    then have "\<not> isspace c" by (auto simp: isspace_def)
    with True Cons show ?thesis
      by (auto simp: sep_tail_def ends_sp_yes_no skip_colon_def u_def ends_yes_no_other)
  next
    case False
    with Cons show ?thesis
      by (auto simp: sep_tail_def ends_sp_yes_no skip_colon_def u_def)
  qed
qed

lemma first_end_vote_tail:
  "first_end (concat (map (ends U sep_tail) (star_ends Whitespace p s g)))
     = first_end (ends U yes_no (None, skip_sep s, g))"
proof (induction s arbitrary: p)
  case Nil
  show ?case by (simp add: ends_sep_tail skip_sep_def)
next
  case (Cons c cs)
  show ?case
  proof (cases "isspace c")
    case False
    then show ?thesis by (simp add: ends_sep_tail skip_sep_def)
  next
    case True
    let ?d = "dropWhile isspace cs"
    have here: "ends U sep_tail (p, c # cs, g) = ends U yes_no (None, ?d, g)"
      using True space_not_mark[of c] by (simp add: ends_sep_tail skip_colon_def)
    have ih: "first_end (concat (map (ends U sep_tail) (star_ends Whitespace (Some c) cs g)))
        = first_end (ends U yes_no (None, dropWhile isspace (skip_colon ?d), g))"
      using Cons[of "Some c"] by (simp add: skip_sep_def)
    have goal: "skip_sep (c # cs) = dropWhile isspace (skip_colon ?d)"
      using True by (simp add: skip_sep_def)
    show ?thesis
    proof (cases "\<exists>e es. ?d = e # es \<and> (e = 58 \<or> e = 45)")
      case True
      then obtain e es where d: "?d = e # es" "e = 58 \<or> e = 45" by blast
      then have "ends U yes_no (None, ?d, g) = []"
        by (auto simp: ends_yes_no_other)
      with here ih goal \<open>isspace c\<close> show ?thesis
        by (simp add: first_end_append split: option.split)
    next
      case False
      then have "skip_colon ?d = ?d"
        by (cases ?d) (simp_all add: skip_colon_def del: dropWhile_eq_Nil_conv)
      moreover have "dropWhile isspace ?d = ?d"
        by (metis dropWhile_idem)
      ultimately show ?thesis using here ih goal \<open>isspace c\<close>
        by (simp add: first_end_append split: option.split)
    qed
  qed
qed

lemma first_end_ends_vote_tail:
  "first_end (ends U vote_tail (p, s, g)) = first_end (ends U yes_no (None, skip_sep s, g))"
  by (simp add: vote_tail_def first_end_vote_tail)

lemma ends_marker:
  "ends U marker_rx (p, s, g) =
     (if startswith s (u ''vote'') \<or> startswith s (u ''my vote'') \<or> startswith s (u ''i vote'')
      then [(Some 101, skip_marker s, g)] else [])"
  by (auto simp: marker_rx_def skip_marker_def u_def startswith_Cons split: list.splits)

lemma marker_no_vote:
  assumes "startswith s (u ''vote'') \<or> startswith s (u ''my vote'') \<or> startswith s (u ''i vote'')"
  shows "first_end (ends U vote_tail (p, s, g)) = None"
proof -
  from assms obtain c cs where s: "s = c # cs" "c = 118 \<or> c = 109 \<or> c = 105"
    by (auto simp: u_def startswith_Cons split: list.splits)
  then have "\<not> isspace c" by (auto simp: isspace_def)
  with s have "skip_sep s = s"
    by (auto simp: skip_sep_def skip_colon_def)
  with s show ?thesis
    by (auto simp: first_end_ends_vote_tail ends_yes_no_other)
qed

lemma re_match_vote_pattern:
  "re_match U vote_pattern l = first_end (ends U yes_no (None, skip_sep (skip_marker l), None))"
proof (cases "startswith l (u ''vote'') \<or> startswith l (u ''my vote'') \<or> startswith l (u ''i vote'')")
  case True
  then show ?thesis
    using marker_no_vote[OF True, of U None None]
    by (simp add: re_match_first vote_pattern_parts ends_marker first_end_append
        first_end_ends_vote_tail split: option.split)
next
  case False
  then have "skip_marker l = l" by (simp add: skip_marker_def)
  with False show ?thesis
    by (simp add: re_match_first vote_pattern_parts ends_marker first_end_ends_vote_tail)
qed

lemma re_match_vote_pattern_cases:
  "re_match U vote_pattern l =
     (if whole_word U (u ''yes'') (skip_sep (skip_marker l)) then Some (Some (u ''yes''))
      else if whole_word U (u ''no'') (skip_sep (skip_marker l)) then Some (Some (u ''no''))
      else None)"
  by (simp add: re_match_vote_pattern ends_yes_no first_end_def)

lemma splitlines_from_hd:
  "cur \<noteq> [] \<or> s \<noteq> [] \<Longrightarrow>
     \<exists>ls. splitlines_from cur s = (cur @ takeWhile (\<lambda>c. \<not> is_linebreak c) s) # ls"
  by (induction cur s rule: splitlines_from.induct) (auto split: list.splits)

lemma rstrip_decomp: "\<exists>ws. x = rstrip x @ ws \<and> (\<forall>c\<in>set ws. isspace c)"
proof -
  have "rev x = takeWhile isspace (rev x) @ dropWhile isspace (rev x)" by simp
  then have "x = rev (dropWhile isspace (rev x)) @ rev (takeWhile isspace (rev x))"
    by (metis rev_append rev_rev_ident)
  moreover have "\<forall>c\<in>set (rev (takeWhile isspace (rev x))). isspace c"
    by (auto dest: set_takeWhileD)
  ultimately show ?thesis unfolding rstrip_def by blast
qed

lemma strip_append_spaces:
  assumes "\<forall>c\<in>set ws. isspace c"
  shows "strip (d @ ws) = strip d"
proof (cases "\<forall>c\<in>set d. isspace c")
  case True
  with assms have "\<forall>c\<in>set (d @ ws). isspace c" by auto
  then show ?thesis using True strip_all_space by metis
next
  case False
  then obtain c where "c \<in> set d" "\<not> isspace c" by blast
  then have "dropWhile isspace (d @ ws) = dropWhile isspace d @ ws"
    by (rule dropWhile_append1)
  moreover have "dropWhile isspace (rev ws @ ys) = dropWhile isspace ys" for ys
    by (rule dropWhile_append2) (use assms in auto)
  ultimately show ?thesis by (simp add: strip_def lstrip_def rstrip_def)
qed

text \<open>What the code strips from the first line is what the specification calls markers.\<close>

lemma clean_line_code: "clean_line l = strip (lstrip_chars leading_markers l)"
proof -
  have "(\<lambda>c. c \<in> set leading_markers) = is_marker"
    by (auto simp: leading_markers_def is_marker_def)
  then show ?thesis by (simp add: clean_line_def lstrip_chars_def)
qed

lemma clean_first_line:
  "clean_line (takeWhile (\<lambda>c. \<not> is_linebreak c) (strip raw)) = clean_line (first_nonempty_line raw)"
proof -
  let ?x = "dropWhile isspace raw"
  let ?y = "rstrip ?x"
  let ?L = "\<lambda>c. \<not> is_linebreak c"
  let ?M = "\<lambda>c. c \<in> set leading_markers"
  obtain ws where ws: "?x = ?y @ ws" "\<forall>c\<in>set ws. isspace c"
    using rstrip_decomp by blast
  show ?thesis
  proof (cases "\<forall>c\<in>set ?y. ?L c")
    case False
    then obtain c where "c \<in> set ?y" "\<not> ?L c" by blast
    then have "takeWhile ?L (?y @ ws) = takeWhile ?L ?y"
      by (rule takeWhile_append1)
    with ws show ?thesis by (simp add: first_nonempty_line_def strip_def lstrip_def)
  next
    case True
    then have t: "takeWhile ?L ?y = ?y" "takeWhile ?L (?y @ ws) = ?y @ takeWhile ?L ws"
      by (simp, intro takeWhile_append2, simp)
    have sp: "\<forall>c\<in>set (takeWhile ?L ws). isspace c"
      using ws(2) by (auto dest: set_takeWhileD)
    have "strip (dropWhile ?M (?y @ takeWhile ?L ws)) = strip (dropWhile ?M ?y)"
    proof (cases "\<forall>c\<in>set ?y. ?M c")
      case True
      then have "dropWhile ?M (?y @ takeWhile ?L ws) = dropWhile ?M (takeWhile ?L ws)"
        by (intro dropWhile_append2) simp
      moreover have "\<forall>c\<in>set (dropWhile ?M (takeWhile ?L ws)). isspace c"
        using sp by (auto dest: set_dropWhileD)
      moreover from True have "dropWhile ?M ?y = []" by simp
      ultimately show ?thesis using strip_all_space by (metis list.set(1) empty_iff)
    next
      case False
      then obtain c where "c \<in> set ?y" "\<not> ?M c" by blast
      then have "dropWhile ?M (?y @ takeWhile ?L ws) = dropWhile ?M ?y @ takeWhile ?L ws"
        by (rule dropWhile_append1)
      then show ?thesis using strip_append_spaces[OF sp] by simp
    qed
    with t ws show ?thesis
      by (metis clean_line_code first_nonempty_line_def lstrip_chars_def lstrip_def strip_def)
  qed
qed

lemma parse_vote_classify:
  assumes "parses raw"
  shows "parse_vote U raw =
     Inr (if raw = [] then VoteValue_invalid
          else classify U (lower U (clean_line (first_nonempty_line raw))))"
proof (cases "raw = []")
  case True
  then show ?thesis by (simp add: parse_vote_def)
next
  case False
  with assms have ne: "strip raw \<noteq> []"
    using strip_nonempty[of raw] by (auto simp: parses_def)
  then obtain ls where
    sl: "splitlines (strip raw) = takeWhile (\<lambda>c. \<not> is_linebreak c) (strip raw) # ls"
    using splitlines_from_hd[of "[]" "strip raw"] by (auto simp: splitlines_def)
  have "strip (lstrip_chars leading_markers (takeWhile (\<lambda>c. \<not> is_linebreak c) (strip raw)))
      = clean_line (first_nonempty_line raw)"
    using clean_first_line[of raw] by (simp add: clean_line_code)
  with False sl show ?thesis
    by (simp add: parse_vote_def Let_def re_match_vote_pattern_cases classify_def u_def)
qed

text \<open>
  The heuristic on the texts that have a first non-empty line: parsing takes that line,
  strips the leading markers and the whitespace, lower-cases it, and classifies it: an
  optional marker "vote", "my vote" or "i vote", an optional colon or dash, then "yes" or
  "no" as a whole word; failing that a line that begins with "yes" or "no"; otherwise
  INVALID. The empty text is INVALID. In particular "Vote: YES" is YES, "- no, because X"
  is NO, "maybe" is INVALID, "" is INVALID and "I vote yes" is YES; "* yes" and "> no"
  are votes because the markers are stripped. The regular expression of the source, run
  by the backtracking matcher, and its way to the first line agree with this description
  on every such text.
\<close>

theorem parse_vote_heuristic:
  assumes "parses raw"
  shows "parse_vote U raw =
           Inr (if raw = [] then VoteValue_invalid
                else classify U (lower U (clean_line (first_nonempty_line raw))))
     \<and> parse_vote U (u ''Vote: YES'') = Inr VoteValue_yes
     \<and> parse_vote U (u ''- no, because X'') = Inr VoteValue_no
     \<and> parse_vote U (u ''maybe'') = Inr VoteValue_invalid
     \<and> parse_vote U (u '''') = Inr VoteValue_invalid
     \<and> parse_vote U (u ''I vote yes'') = Inr VoteValue_yes
     \<and> parse_vote U (u ''* yes'') = Inr VoteValue_yes
     \<and> parse_vote U (u ''> no'') = Inr VoteValue_no"
  using parse_vote_classify[OF assms, of U] parse_vote_examples[of U]
    parse_vote_marker_examples[of U]
  by simp

theorem parse_vote_heuristic_witness:
  "parses (u ''- no, because X'')
   \<and> classify plain (lower plain (clean_line (first_nonempty_line (u ''- no, because X''))))
       = VoteValue_no"
proof -
  have h: "parses (u ''- no, because X'')"
    by (simp add: parses_def u_def isspace_def)
  have ne: "u ''- no, because X'' \<noteq> []" by (simp add: u_def)
  note t = parse_vote_heuristic[OF h, of plain]
  from t have a: "parse_vote plain (u ''- no, because X'') =
      Inr (if u ''- no, because X'' = [] then VoteValue_invalid
           else classify plain (lower plain (clean_line (first_nonempty_line (u ''- no, because X'')))))"
    by (rule conjunct1)
  from t have b: "parse_vote plain (u ''- no, because X'') = Inr VoteValue_no"
    by (elim conjE)
  from a ne have "parse_vote plain (u ''- no, because X'') =
      Inr (classify plain (lower plain (clean_line (first_nonempty_line (u ''- no, because X'')))))"
    by (simp only: if_False)
  with b have "classify plain (lower plain (clean_line (first_nonempty_line (u ''- no, because X''))))
       = VoteValue_no"
    by (simp only: sum.inject)
  with h show ?thesis by (intro conjI)
qed

text \<open>
  C7. The claim: for every raw vote text parsing takes the first non-empty line, cleans
  and lower-cases it, matches it and otherwise classifies INVALID, as it does for the
  empty text. The code guards the empty text alone. A text of a space, a line feed and a
  space has no non-empty line: \<open>raw.strip()\<close> is empty, \<open>splitlines()\<close> gives no
  line, and the subscript \<open>[0]\<close> raises \<open>IndexError\<close> where the claim classifies
  INVALID (the defect of C10). On every other text the code does what the claim says.
\<close>

theorem parse_vote_blank_lines_raises: "parse_vote U [32, 10, 32] = Inl IndexError"
  by (simp add: parse_vote_def strip_def lstrip_def rstrip_def isspace_def splitlines_def)

section \<open>The engine's state: what the operations leave alone\<close>

lemma mset_as_completed: "mset (as_completed E n xs) = mset xs"
proof -
  have "mset (map snd (sort_key f (enumerate 0 xs))) = mset (map snd (enumerate 0 xs))" for f :: "nat \<times> 'a \<Rightarrow> nat"
    by (simp only: mset_map mset_sort)
  then show ?thesis by (simp add: as_completed_def)
qed

lemma length_as_completed: "length (as_completed E n xs) = length xs"
  by (metis mset_as_completed size_mset)

lemma set_as_completed: "set (as_completed E n xs) = set xs"
  by (metis mset_as_completed set_mset_mset)

lemma fan_out_nth:
  "i < length (participants template) \<Longrightarrow>
     fan_out E template phase run round_no n0 ! i
       = run_one E template phase run round_no (n0 + i) (participants template ! i)"
  by (simp add: fan_out_def nth_enumerate_eq)

lemma length_fan_out: "length (fan_out E template phase run round_no n0) = length (participants template)"
  by (simp add: fan_out_def)

lemma map_fst_fan_out: "map fst (fan_out E template phase run round_no n0) = participants template"
  by (rule nth_equalityI) (simp_all add: length_fan_out fan_out_nth run_one_def)

lemma runs_modify_run:
  "runs (modify_run run_id f s) = (runs s)(run_id := map_option f (runs s run_id))"
  by (auto simp: modify_run_def split: option.split)

lemma modify_run_other [simp]:
  "templates (modify_run run_id f s) = templates s"
  "final_records (modify_run run_id f s) = final_records s"
  "progress (modify_run run_id f s) = progress s"
  "run_context (modify_run run_id f s) = run_context s"
  "tasks (modify_run run_id f s) = tasks s"
  "requests (modify_run run_id f s) = requests s"
  by (simp_all add: modify_run_def split: option.split)

lemma add_outputs_Nil [simp]: "add_outputs pos [] r = r"
  by (simp add: add_outputs_def)

lemma add_outputs_append: "add_outputs pos ys (add_outputs pos xs r) = add_outputs pos (xs @ ys) r"
proof (cases "pos < length (rounds r)")
  case True
  then show ?thesis by (simp add: add_outputs_def)
next
  case False
  then have a: "(rounds r)[pos := x] = rounds r" for x
    by (intro list_update_beyond) simp
  show ?thesis unfolding add_outputs_def by (simp add: a)
qed

lemma append_output_eq: "append_output run_id pos po s = modify_run run_id (add_outputs pos [po]) s"
proof -
  have "add_outputs pos [po] =
      (\<lambda>run. run\<lparr>rounds := (rounds run)[pos := (rounds run ! pos)
          \<lparr>phase_outputs := phase_outputs (rounds run ! pos) @ [po]\<rparr>]\<rparr>)"
    by (rule ext) (simp add: add_outputs_def)
  then show ?thesis by (simp add: append_output_def modify_round_def)
qed

lemma modify_run_comp: "modify_run run_id g (modify_run run_id f s) = modify_run run_id (g \<circ> f) s"
  by (auto simp: modify_run_def split: option.split)

lemma modify_run_id: "(\<And>r. f r = r) \<Longrightarrow> modify_run run_id f s = s"
  by (auto simp: modify_run_def map_upd_triv split: option.split)

lemma fold_append_output:
  "fold (append_output run_id pos) outs s = modify_run run_id (add_outputs pos outs) s"
proof (induction outs arbitrary: s)
  case Nil
  show ?case by (simp add: modify_run_id)
next
  case (Cons po outs)
  have eq: "(add_outputs pos outs \<circ> add_outputs pos [po]) = add_outputs pos (po # outs)"
    by (rule ext) (simp add: add_outputs_append)
  have "fold (append_output run_id pos) (po # outs) s
      = fold (append_output run_id pos) outs (append_output run_id pos po s)"
    by simp
  also have "\<dots> = modify_run run_id (add_outputs pos outs) (append_output run_id pos po s)"
    by (rule Cons)
  also have "\<dots> = modify_run run_id (add_outputs pos outs \<circ> add_outputs pos [po]) s"
    by (simp only: append_output_eq modify_run_comp)
  also have "\<dots> = modify_run run_id (add_outputs pos (po # outs)) s"
    by (simp only: eq)
  finally show ?case .
qed

lemma parse_vote_error: "parse_vote U raw = Inl e \<Longrightarrow> e = IndexError"
  by (auto simp: parse_vote_def Let_def split: if_splits list.splits option.splits)

lemma tally_loop_error: "tally_loop U outs acc = Inl e \<Longrightarrow> e = IndexError"
proof (induction outs arbitrary: acc)
  case Nil
  then show ?case by simp
next
  case (Cons po outs)
  obtain vs y n where acc: "acc = (vs, y, n)" by (cases acc)
  from Cons.prems show ?case
    unfolding acc
    by (auto split: sum.splits dest: parse_vote_error Cons.IH)
qed

lemma tally_votes_error: "tally_votes U outs = Inl e \<Longrightarrow> e = IndexError"
  by (auto simp: tally_votes_def split: sum.splits prod.splits dest: tally_loop_error)

lemma end_phase_error: "end_phase E run_id pos phase outs s = Inl e \<Longrightarrow> e = IndexError"
  by (auto simp: end_phase_def split: if_splits sum.splits prod.splits dest: tally_votes_error)

lemma finalize_error: "fst (finalize run_id s) = Inl e \<Longrightarrow> e = ValidationError"
  by (auto simp: finalize_def Let_def split: option.splits if_splits)

lemma step_phase_chat_failure:
  assumes "fst (step_phase E run_id ctx run0 round_idx phase_idx s) = Inl (ChatFailure exc)"
  shows "\<exists>m run rr n. moderator (ctx_template ctx) = Some m
           \<and> moderator_request E m run rr n = Inl exc"
  using assms
  by (auto simp: step_phase_def Let_def split: if_splits prod.splits sum.splits option.splits
      dest: end_phase_error finalize_error)

lemma advance_chat_failure:
  assumes "fst (advance_debate E run_id s) = Inl (ChatFailure exc)"
  shows "\<exists>ctx m run rr n. run_context s run_id = Some ctx \<and> moderator (ctx_template ctx) = Some m
           \<and> moderator_request E m run rr n = Inl exc"
proof -
  have f: "finalize run_id s = (Inl e, s') \<Longrightarrow> e = ValidationError" for e s'
    using finalize_error[of run_id s e] by simp
  have p: "step_phase E run_id ctx run0 r p s = (Inl (ChatFailure exc), s') \<Longrightarrow>
      \<exists>m run rr n. moderator (ctx_template ctx) = Some m \<and> moderator_request E m run rr n = Inl exc"
    for ctx run0 r p s'
    using step_phase_chat_failure[of E run_id ctx run0 r p s exc] by simp
  from assms show ?thesis
    by (auto simp: advance_debate_def execute_phase_step_def
        split: option.splits if_splits prod.splits sum.splits dest: f dest!: p)
qed

section \<open>One phase\<close>

lemma rstrip_Cons:
  assumes "\<not> isspace c"
  shows "\<exists>t'. rstrip (c # t) = c # t'"
proof -
  obtain ws where ws: "c # t = rstrip (c # t) @ ws" "\<forall>x\<in>set ws. isspace x"
    using rstrip_decomp by blast
  show ?thesis
  proof (cases "rstrip (c # t)")
    case Nil
    with ws assms show ?thesis by (metis append_Nil list.set_intros(1))
  next
    case (Cons d t')
    with ws(1) show ?thesis by (metis append_Cons list.inject)
  qed
qed

lemma classify_other:
  assumes "\<not> isspace c" "c \<notin> {118, 109, 105, 58, 45, 121, 110}"
  shows "classify U (c # t) = VoteValue_invalid"
proof -
  from assms have "skip_marker (c # t) = c # t"
    by (simp add: skip_marker_def u_def startswith_Cons)
  moreover from assms have "skip_sep (c # t) = c # t"
    by (simp add: skip_sep_def skip_colon_def)
  ultimately show ?thesis using assms
    by (simp add: classify_def whole_word_def u_def startswith_Cons)
qed

lemma parse_vote_error_marker:
  "parse_vote U (u ''(error: '' @ exc @ u '')'') = Inr VoteValue_invalid"
proof -
  let ?raw = "u ''(error: '' @ exc @ u '')''"
  obtain t where raw: "?raw = 40 # t" by (simp add: u_def)
  have sp: "\<not> isspace 40" "\<not> is_linebreak 40" "40 \<notin> set leading_markers"
    by (simp_all add: isspace_def is_linebreak_def leading_markers_def)
  have p: "parses ?raw" unfolding raw parses_def using sp by auto
  have "first_nonempty_line ?raw = 40 # takeWhile (\<lambda>c. \<not> is_linebreak c) t"
    unfolding raw using sp by (simp add: first_nonempty_line_def)
  then obtain t' where "clean_line (first_nonempty_line ?raw) = 40 # t'"
    using sp rstrip_Cons[of 40] by (auto simp: clean_line_code lstrip_chars_def strip_def lstrip_def)
  then have "\<exists>t''. lower U (clean_line (first_nonempty_line ?raw)) = 40 # t''"
    by (simp add: lower_def lower_cp_def)
  then have "classify U (lower U (clean_line (first_nonempty_line ?raw))) = VoteValue_invalid"
    using sp classify_other[of 40 U] by auto
  with parse_vote_classify[OF p, of U] raw show ?thesis by simp
qed

lemma execute_phase_eq:
  "execute_phase E template phase run_id run round_no pos s =
     (map (phase_output phase)
        (as_completed E (requests s) (fan_out E template phase run round_no (requests s))),
      modify_run run_id
        (add_outputs pos (map (phase_output phase)
           (as_completed E (requests s) (fan_out E template phase run round_no (requests s)))))
        (s\<lparr>requests := requests s + length (participants template)\<rparr>))"
  by (simp add: execute_phase_def Let_def fold_append_output)

text \<open>
  C9. In every execution of a phase each participant of the roster contributes exactly
  one PhaseOutput, of this phase: the outputs are the roster's, in the order of
  completion. A participant whose call raises contributes the output whose text is the
  marker "(error: ...)" with the text of the exception, a participant whose call returns
  the output with the text returned. The phase itself cannot fail, the outputs are
  appended to the round, and a marker in a vote phase is parsed as an INVALID vote.
  The only failure of the client that an advance surfaces is the moderator's.
\<close>

theorem execute_phase_contains_failures:
  assumes "execute_phase E template phase run_id run round_no pos s = (outs, s')"
  shows "length outs = length (participants template)
     \<and> mset (map participant_id outs) = mset (map p_id (participants template))
     \<and> (\<forall>po\<in>set outs. phase_id po = ph_id phase)
     \<and> (\<forall>i<length (participants template). \<forall>exc.
           chat E (requests s + i) (model_id (participants template ! i))
             (build_messages E template (persona_prompt (participants template ! i)) phase run
                round_no) = Inl exc
           \<longrightarrow> \<lparr>phase_id = ph_id phase, participant_id = p_id (participants template ! i),
                 po_output = u ''(error: '' @ exc @ u '')''\<rparr> \<in> set outs)
     \<and> (\<forall>i<length (participants template). \<forall>raw.
           chat E (requests s + i) (model_id (participants template ! i))
             (build_messages E template (persona_prompt (participants template ! i)) phase run
                round_no) = Inr raw
           \<longrightarrow> \<lparr>phase_id = ph_id phase, participant_id = p_id (participants template ! i),
                 po_output = raw\<rparr> \<in> set outs)
     \<and> runs s' = (runs s)(run_id := map_option (add_outputs pos outs) (runs s run_id))
     \<and> (\<forall>exc. parse_vote (uni E) (u ''(error: '' @ exc @ u '')'') = Inr VoteValue_invalid)
     \<and> (\<forall>run_id' s0 exc. fst (advance_debate E run_id' s0) = Inl (ChatFailure exc) \<longrightarrow>
           (\<exists>ctx m run' rr n. run_context s0 run_id' = Some ctx
              \<and> moderator (ctx_template ctx) = Some m
              \<and> moderator_request E m run' rr n = Inl exc))"
proof -
  let ?fo = "fan_out E template phase run round_no (requests s)"
  let ?res = "as_completed E (requests s) ?fo"
  from assms have outs: "outs = map (phase_output phase) ?res"
    and s': "s' = modify_run run_id (add_outputs pos outs)
                    (s\<lparr>requests := requests s + length (participants template)\<rparr>)"
    by (auto simp: execute_phase_eq)
  have len: "length outs = length (participants template)"
    by (simp add: outs length_as_completed length_fan_out)
  have "mset (map participant_id outs) = mset (map (p_id \<circ> fst) ?res)"
    by (simp add: outs phase_output_def comp_def)
  also have "\<dots> = image_mset (p_id \<circ> fst) (mset ?fo)"
    by (simp only: mset_map mset_as_completed)
  also have "\<dots> = mset (map p_id (map fst ?fo))"
    by simp
  finally have roster: "mset (map participant_id outs) = mset (map p_id (participants template))"
    by (simp only: map_fst_fan_out)
  have ph: "\<forall>po\<in>set outs. phase_id po = ph_id phase"
    by (auto simp: outs phase_output_def)
  have mem: "phase_output phase (run_one E template phase run round_no (requests s + i)
                (participants template ! i)) \<in> set outs"
    if "i < length (participants template)" for i
  proof -
    from that have "?fo ! i \<in> set ?fo" by (simp add: length_fan_out)
    then have "?fo ! i \<in> set ?res" by (simp add: set_as_completed)
    then show ?thesis using that by (simp add: outs fan_out_nth)
  qed
  have fail: "\<forall>i<length (participants template). \<forall>exc.
           chat E (requests s + i) (model_id (participants template ! i))
             (build_messages E template (persona_prompt (participants template ! i)) phase run
                round_no) = Inl exc
           \<longrightarrow> \<lparr>phase_id = ph_id phase, participant_id = p_id (participants template ! i),
                 po_output = u ''(error: '' @ exc @ u '')''\<rparr> \<in> set outs"
  proof (intro allI impI)
    fix i exc
    assume i: "i < length (participants template)"
      and c: "chat E (requests s + i) (model_id (participants template ! i))
             (build_messages E template (persona_prompt (participants template ! i)) phase run
                round_no) = Inl exc"
    from mem[OF i] show "\<lparr>phase_id = ph_id phase, participant_id = p_id (participants template ! i),
                 po_output = u ''(error: '' @ exc @ u '')''\<rparr> \<in> set outs"
      by (simp add: phase_output_def run_one_def c)
  qed
  have ok: "\<forall>i<length (participants template). \<forall>raw.
           chat E (requests s + i) (model_id (participants template ! i))
             (build_messages E template (persona_prompt (participants template ! i)) phase run
                round_no) = Inr raw
           \<longrightarrow> \<lparr>phase_id = ph_id phase, participant_id = p_id (participants template ! i),
                 po_output = raw\<rparr> \<in> set outs"
  proof (intro allI impI)
    fix i raw
    assume i: "i < length (participants template)"
      and c: "chat E (requests s + i) (model_id (participants template ! i))
             (build_messages E template (persona_prompt (participants template ! i)) phase run
                round_no) = Inr raw"
    from mem[OF i] show "\<lparr>phase_id = ph_id phase, participant_id = p_id (participants template ! i),
                 po_output = raw\<rparr> \<in> set outs"
      by (simp add: phase_output_def run_one_def c)
  qed
  have st: "runs s' = (runs s)(run_id := map_option (add_outputs pos outs) (runs s run_id))"
    by (simp add: s' runs_modify_run)
  show ?thesis
    using len roster ph fail ok st parse_vote_error_marker advance_chat_failure
    by (intro conjI allI impI) blast+
qed

theorem execute_phase_contains_failures_witness:
  "chat second_fails (requests (holding demo_run) + 1)
      (model_id (participants (demo_template 1 [demo_phase ''p1'' PhaseRole_reaction]) ! 1))
      (build_messages second_fails (demo_template 1 [demo_phase ''p1'' PhaseRole_reaction])
         (persona_prompt (participants (demo_template 1 [demo_phase ''p1'' PhaseRole_reaction]) ! 1))
         (demo_phase ''p1'' PhaseRole_reaction) demo_run 1) = Inl (u ''timed out'')
   \<and> \<lparr>phase_id = u ''p1'', participant_id = u ''b'', po_output = u ''(error: timed out)''\<rparr>
       \<in> set (fst (execute_phase second_fails
                      (demo_template 1 [demo_phase ''p1'' PhaseRole_reaction])
                      (demo_phase ''p1'' PhaseRole_reaction) (u ''r'') demo_run 1 0
                      (holding demo_run)))
   \<and> length (fst (execute_phase second_fails
                      (demo_template 1 [demo_phase ''p1'' PhaseRole_reaction])
                      (demo_phase ''p1'' PhaseRole_reaction) (u ''r'') demo_run 1 0
                      (holding demo_run))) = 3"
proof -
  let ?T = "demo_template 1 [demo_phase ''p1'' PhaseRole_reaction]"
  let ?ph = "demo_phase ''p1'' PhaseRole_reaction"
  let ?x = "execute_phase second_fails ?T ?ph (u ''r'') demo_run 1 0 (holding demo_run)"
  have x: "?x = (fst ?x, snd ?x)" by simp
  note t = execute_phase_contains_failures[OF x]
  have c: "chat second_fails (requests (holding demo_run) + 1) (model_id (participants ?T ! 1))
      (build_messages second_fails ?T (persona_prompt (participants ?T ! 1)) ?ph demo_run 1)
        = Inl (u ''timed out'')"
    by (simp add: second_fails_def holding_def empty_orchestrator_def)
  have i: "1 < length (participants ?T)" by (simp add: demo_template_def)
  from t have "\<forall>i<length (participants ?T). \<forall>exc.
           chat second_fails (requests (holding demo_run) + i) (model_id (participants ?T ! i))
             (build_messages second_fails ?T (persona_prompt (participants ?T ! i)) ?ph demo_run 1)
              = Inl exc
           \<longrightarrow> \<lparr>phase_id = ph_id ?ph, participant_id = p_id (participants ?T ! i),
                 po_output = u ''(error: '' @ exc @ u '')''\<rparr> \<in> set (fst ?x)"
    by (elim conjE)
  with i c have "\<lparr>phase_id = ph_id ?ph, participant_id = p_id (participants ?T ! 1),
                 po_output = u ''(error: '' @ u ''timed out'' @ u '')''\<rparr> \<in> set (fst ?x)"
    by blast
  moreover have "ph_id ?ph = u ''p1''" "p_id (participants ?T ! 1) = u ''b''"
    "u ''(error: '' @ u ''timed out'' @ u '')'' = u ''(error: timed out)''"
    by (simp_all add: demo_phase_def demo_template_def demo_participant_def u_def)
  ultimately have m: "\<lparr>phase_id = u ''p1'', participant_id = u ''b'',
      po_output = u ''(error: timed out)''\<rparr> \<in> set (fst ?x)"
    by simp
  from t have "length (fst ?x) = length (participants ?T)" by (elim conjE)
  then have l: "length (fst ?x) = 3" by (simp add: demo_template_def)
  from c m l show ?thesis by (intro conjI)
qed

section \<open>Step mode\<close>

lemma modify_run_Some:
  "runs s run_id = Some r \<Longrightarrow> modify_run run_id f s = s\<lparr>runs := (runs s)(run_id \<mapsto> f r)\<rparr>"
  by (simp add: modify_run_def)

lemma step_phase_nonvote:
  assumes "p < length (phases (ctx_template ctx))"
    and "role (phases (ctx_template ctx) ! p) \<noteq> PhaseRole_vote"
    and "length (rounds run0) = r \<or> length (rounds run0) = Suc r"
    and "moderator (ctx_template ctx) = None"
  shows "step_phase E run_id ctx run0 r p s =
      (let run1 = (if length (rounds run0) \<le> r
                   then run0\<lparr>rounds := rounds run0 @ [new_round (int r + 1)]\<rparr> else run0);
           outs = map (phase_output (phases (ctx_template ctx) ! p))
                    (as_completed E (requests s)
                       (fan_out E (ctx_template ctx) (phases (ctx_template ctx) ! p) run1
                          (int r + 1) (requests s)));
           cursor = (if Suc p = length (phases (ctx_template ctx)) then (Suc r, 0) else (r, Suc p));
           s5 = s\<lparr>requests := requests s + length (participants (ctx_template ctx)),
                  runs := (runs s)(run_id \<mapsto> add_outputs r outs run1),
                  progress := (progress s)(run_id \<mapsto> cursor)\<rparr>
       in if total_rounds ctx \<le> int (fst cursor) then finalize run_id s5 else (Inr (), s5))"
proof -
  have lp: "(int p = int (length (phases (ctx_template ctx))) - 1)
              = (Suc p = length (phases (ctx_template ctx)))"
    using assms(1) by auto
  show ?thesis
    using assms
    by (auto simp add: step_phase_def execute_phase_eq end_phase_def Let_def lp modify_run_Some
)
qed

lemma add_outputs_fields [simp]:
  "status (add_outputs pos outs r) = status r"
  "mode (add_outputs pos outs r) = mode r"
  "length (rounds (add_outputs pos outs r)) = length (rounds r)"
  by (simp_all add: add_outputs_def)

lemma add_outputs_outcomes [simp]:
  "map outcome (rounds (add_outputs pos outs r)) = map outcome (rounds r)"
proof (cases "pos < length (rounds r)")
  case True
  then have "(map outcome (rounds r))[pos := outcome (rounds r ! pos)] = map outcome (rounds r)"
    by (metis length_map list_update_id nth_map)
  then show ?thesis by (simp add: add_outputs_def map_update)
next
  case False
  then have "(rounds r)[pos := x] = rounds r" for x
    by (intro list_update_beyond) simp
  then show ?thesis by (simp add: add_outputs_def)
qed

lemma list_all_outcome_map:
  "list_all (\<lambda>rr. outcome rr = None) rs \<longleftrightarrow> list_all (\<lambda>oc. oc = None) (map outcome rs)"
  by (simp add: list_all_iff)

lemma add_outputs_no_outcome [simp]:
  "list_all (\<lambda>rr. outcome rr = None) (rounds (add_outputs pos outs r))
     \<longleftrightarrow> list_all (\<lambda>rr. outcome rr = None) (rounds r)"
  by (simp only: list_all_outcome_map add_outputs_outcomes)

lemma advance_within_round:
  assumes "stepping s run_id ctx r p"
    and "int r < total_rounds ctx"
    and "Suc p < length (phases (ctx_template ctx))"
    and "role (phases (ctx_template ctx) ! p) \<noteq> PhaseRole_vote"
    and "moderator (ctx_template ctx) = None"
  shows "\<exists>resp s'. advance_debate E run_id s = (Inr resp, s') \<and> \<not> is_done resp
           \<and> stepping s' run_id ctx r (Suc p) \<and> final_records s' = final_records s"
proof -
  from assms(1) obtain run where run: "run_context s run_id = Some ctx"
    "progress s run_id = Some (r, p)" "runs s run_id = Some run" "mode run = RunMode_step"
    "status run = RunStatus_running" "length (rounds run) = (if p = 0 then r else Suc r)"
    "list_all (\<lambda>rr. outcome rr = None) (rounds run)"
    by (auto simp: stepping_def)
  have l: "length (rounds run) = r \<or> length (rounds run) = Suc r"
    using run(6) by (auto split: if_splits)
  have p: "p < length (phases (ctx_template ctx))" using assms(3) by simp
  show ?thesis
    using run assms(2,3)
    by (auto simp: advance_debate_def execute_phase_step_def terminal_def deref_def
        step_phase_nonvote[OF p assms(4) l assms(5)] Let_def stepping_def new_round_def)
qed

lemma advance_next_round:
  assumes "stepping s run_id ctx r p"
    and "int (Suc r) < total_rounds ctx"
    and "Suc p = length (phases (ctx_template ctx))"
    and "role (phases (ctx_template ctx) ! p) \<noteq> PhaseRole_vote"
    and "moderator (ctx_template ctx) = None"
  shows "\<exists>resp s'. advance_debate E run_id s = (Inr resp, s') \<and> \<not> is_done resp
           \<and> stepping s' run_id ctx (Suc r) 0 \<and> final_records s' = final_records s"
proof -
  from assms(1) obtain run where run: "run_context s run_id = Some ctx"
    "progress s run_id = Some (r, p)" "runs s run_id = Some run" "mode run = RunMode_step"
    "status run = RunStatus_running" "length (rounds run) = (if p = 0 then r else Suc r)"
    "list_all (\<lambda>rr. outcome rr = None) (rounds run)"
    by (auto simp: stepping_def)
  have l: "length (rounds run) = r \<or> length (rounds run) = Suc r"
    using run(6) by (auto split: if_splits)
  have p: "p < length (phases (ctx_template ctx))" using assms(3) by simp
  show ?thesis
    using run assms(2,3)
    by (auto simp: advance_debate_def execute_phase_step_def terminal_def deref_def
        step_phase_nonvote[OF p assms(4) l assms(5)] Let_def stepping_def new_round_def)
qed

lemma advance_last_phase:
  assumes "stepping s run_id ctx r p"
    and "int r < total_rounds ctx"
    and "total_rounds ctx \<le> int (Suc r)"
    and "Suc p = length (phases (ctx_template ctx))"
    and "role (phases (ctx_template ctx) ! p) \<noteq> PhaseRole_vote"
    and "moderator (ctx_template ctx) = None"
  shows "\<exists>s' run'. advance_debate E run_id s = (Inl ValidationError, s')
           \<and> progress s' run_id = Some (Suc r, 0) \<and> run_context s' run_id = Some ctx
           \<and> runs s' run_id = Some run' \<and> status run' = RunStatus_completed
           \<and> mode run' = RunMode_step \<and> final_records s' = final_records s"
proof -
  from assms(1) obtain run where run: "run_context s run_id = Some ctx"
    "progress s run_id = Some (r, p)" "runs s run_id = Some run" "mode run = RunMode_step"
    "status run = RunStatus_running" "length (rounds run) = (if p = 0 then r else Suc r)"
    "list_all (\<lambda>rr. outcome rr = None) (rounds run)"
    by (auto simp: stepping_def)
  have l: "length (rounds run) = r \<or> length (rounds run) = Suc r"
    using run(6) by (auto split: if_splits)
  have p: "p < length (phases (ctx_template ctx))" using assms(4) by simp
  have last_none: "rs \<noteq> [] \<Longrightarrow> list_all (\<lambda>rr. outcome rr = None) rs \<Longrightarrow> outcome (last rs) = None"
    for rs :: "RoundResult list"
    by (simp add: list_all_iff)
  have ne: "length (rounds x) = Suc n \<Longrightarrow> rounds x \<noteq> []" for x :: DebateRun and n
    by auto
  show ?thesis
    using run assms(2,3,4)
    by (auto simp: advance_debate_def execute_phase_step_def terminal_def deref_def
        step_phase_nonvote[OF p assms(5) l assms(6)] Let_def new_round_def finalize_def
        last_none ne split: if_splits)
qed

lemma advance_finished:
  assumes "run_context s run_id = Some ctx" "runs s run_id = Some run"
    "mode run = RunMode_step" "terminal (status run)"
  shows "advance_debate E run_id s = (Inr \<lparr>debate = run, is_done = True\<rparr>, s)"
  using assms by (simp add: advance_debate_def)

lemma start_debate_stepping:
  assumes "templates s (q_template_id payload) = Some T" "q_mode payload = RunMode_step"
  shows "stepping (snd (start_debate payload new_id s)) new_id
           \<lparr>ctx_template = T,
            total_rounds = (case q_rounds payload of None \<Rightarrow> t_rounds T
                            | Some n \<Rightarrow> if n = 0 then t_rounds T else n)\<rparr> 0 0"
  using assms by (simp add: start_debate_def stepping_def Let_def)

lemma two_rounds_three_phases:
  assumes st: "stepping s0 run_id ctx 0 0"
    and tot: "total_rounds ctx = 2"
    and len: "length (phases (ctx_template ctx)) = 3"
    and nv: "\<forall>ph\<in>set (phases (ctx_template ctx)). role ph \<noteq> PhaseRole_vote"
    and nm: "moderator (ctx_template ctx) = None"
  shows "\<exists>s1 s2 s3 s4 s5 s6 a1 a2 a3 a4 a5 run.
     advance_debate E run_id s0 = (Inr a1, s1) \<and> \<not> is_done a1 \<and> progress s1 run_id = Some (0, 1)
   \<and> advance_debate E run_id s1 = (Inr a2, s2) \<and> \<not> is_done a2 \<and> progress s2 run_id = Some (0, 2)
   \<and> advance_debate E run_id s2 = (Inr a3, s3) \<and> \<not> is_done a3 \<and> progress s3 run_id = Some (1, 0)
   \<and> advance_debate E run_id s3 = (Inr a4, s4) \<and> \<not> is_done a4 \<and> progress s4 run_id = Some (1, 1)
   \<and> advance_debate E run_id s4 = (Inr a5, s5) \<and> \<not> is_done a5 \<and> progress s5 run_id = Some (1, 2)
   \<and> advance_debate E run_id s5 = (Inl ValidationError, s6) \<and> progress s6 run_id = Some (2, 0)
   \<and> runs s6 run_id = Some run \<and> status run = RunStatus_completed
   \<and> final_records s6 = final_records s0
   \<and> advance_debate E run_id s6 = (Inr \<lparr>debate = run, is_done = True\<rparr>, s6)"
proof -
  have role: "role (phases (ctx_template ctx) ! i) \<noteq> PhaseRole_vote" if "i < 3" for i
    using nv len that by (metis nth_mem)
  obtain a1 s1 where 1: "advance_debate E run_id s0 = (Inr a1, s1)" "\<not> is_done a1"
    "stepping s1 run_id ctx 0 1" "final_records s1 = final_records s0"
    using advance_within_round[OF st _ _ role[of 0] nm, of E] tot len by auto
  obtain a2 s2 where 2: "advance_debate E run_id s1 = (Inr a2, s2)" "\<not> is_done a2"
    "stepping s2 run_id ctx 0 2" "final_records s2 = final_records s1"
    using advance_within_round[OF 1(3) _ _ role[of 1] nm, of E] tot len
    by (auto simp: numeral_2_eq_2)
  obtain a3 s3 where 3: "advance_debate E run_id s2 = (Inr a3, s3)" "\<not> is_done a3"
    "stepping s3 run_id ctx 1 0" "final_records s3 = final_records s2"
    using advance_next_round[OF 2(3) _ _ role[of 2] nm, of E] tot len
    by (auto simp: numeral_2_eq_2 numeral_3_eq_3)
  obtain a4 s4 where 4: "advance_debate E run_id s3 = (Inr a4, s4)" "\<not> is_done a4"
    "stepping s4 run_id ctx 1 1" "final_records s4 = final_records s3"
    using advance_within_round[OF 3(3) _ _ role[of 0] nm, of E] tot len by auto
  obtain a5 s5 where 5: "advance_debate E run_id s4 = (Inr a5, s5)" "\<not> is_done a5"
    "stepping s5 run_id ctx 1 2" "final_records s5 = final_records s4"
    using advance_within_round[OF 4(3) _ _ role[of 1] nm, of E] tot len
    by (auto simp: numeral_2_eq_2)
  obtain s6 run where 6: "advance_debate E run_id s5 = (Inl ValidationError, s6)"
    "progress s6 run_id = Some (2, 0)" "run_context s6 run_id = Some ctx"
    "runs s6 run_id = Some run" "status run = RunStatus_completed" "mode run = RunMode_step"
    "final_records s6 = final_records s5"
    using advance_last_phase[OF 5(3) _ _ _ role[of 2] nm, of E] tot len
    by (auto simp: numeral_2_eq_2 numeral_3_eq_3)
  have 7: "advance_debate E run_id s6 = (Inr \<lparr>debate = run, is_done = True\<rparr>, s6)"
    using advance_finished[OF 6(3,4,6)] 6(5) by (simp add: terminal_def)
  have p: "progress s1 run_id = Some (0, 1)" "progress s2 run_id = Some (0, 2)"
    "progress s3 run_id = Some (1, 0)" "progress s4 run_id = Some (1, 1)"
    "progress s5 run_id = Some (1, 2)"
    using 1(3) 2(3) 3(3) 4(3) 5(3) by (simp_all add: stepping_def numeral_2_eq_2)
  have f: "final_records s6 = final_records s0"
    using 1(4) 2(4) 3(4) 4(4) 5(4) 6(7) by simp
  from 1(1,2) 2(1,2) 3(1,2) 4(1,2) 5(1,2) 6(1,2,4,5) 7 p f show ?thesis
    by blast
qed

text \<open>
  C8. The claim: a step-mode run of a template with 2 rounds and 3 phases, none a vote
  phase, and no moderator, reaches \<open>done = true\<close> after exactly 6 advance calls, the
  cursor visiting (0,0), (0,1), (0,2), (1,0), (1,1), (1,2) in order. The cursor does so,
  but the sixth call does not return: it finalizes the run, the last round has no
  outcome, and the FinalRecord cannot be built (the defect of C4). The run is then
  completed, the cursor is at (2,0), no FinalRecord is written, and it is the seventh
  call that returns \<open>done = true\<close>. This holds whatever the client answers.
\<close>

theorem sixth_advance_raises:
  "progress (started RunMode_step 2 three_phases) (u ''r'') = Some (0, 0)
   \<and> (\<exists>s1 s2 s3 s4 s5 s6 a1 a2 a3 a4 a5 run.
     advance_debate E (u ''r'') (started RunMode_step 2 three_phases) = (Inr a1, s1)
       \<and> \<not> is_done a1 \<and> progress s1 (u ''r'') = Some (0, 1)
   \<and> advance_debate E (u ''r'') s1 = (Inr a2, s2) \<and> \<not> is_done a2
       \<and> progress s2 (u ''r'') = Some (0, 2)
   \<and> advance_debate E (u ''r'') s2 = (Inr a3, s3) \<and> \<not> is_done a3
       \<and> progress s3 (u ''r'') = Some (1, 0)
   \<and> advance_debate E (u ''r'') s3 = (Inr a4, s4) \<and> \<not> is_done a4
       \<and> progress s4 (u ''r'') = Some (1, 1)
   \<and> advance_debate E (u ''r'') s4 = (Inr a5, s5) \<and> \<not> is_done a5
       \<and> progress s5 (u ''r'') = Some (1, 2)
   \<and> advance_debate E (u ''r'') s5 = (Inl ValidationError, s6)
       \<and> progress s6 (u ''r'') = Some (2, 0)
       \<and> runs s6 (u ''r'') = Some run \<and> status run = RunStatus_completed
       \<and> final_records s6 = []
   \<and> advance_debate E (u ''r'') s6 = (Inr \<lparr>debate = run, is_done = True\<rparr>, s6))"
proof -
  let ?T = "demo_template 2 three_phases"
  let ?ctx = "\<lparr>ctx_template = ?T, total_rounds = 2\<rparr>"
  let ?s0 = "started RunMode_step 2 three_phases"
  have st: "stepping ?s0 (u ''r'') ?ctx 0 0"
    using start_debate_stepping[of "empty_orchestrator\<lparr>templates := [u ''t'' \<mapsto> ?T]\<rparr>"
        "demo_request RunMode_step" ?T "u ''r''"]
    by (simp add: started_def demo_request_def demo_template_def)
  have p0: "progress ?s0 (u ''r'') = Some (0, 0)"
    using st by (simp add: stepping_def)
  have f0: "final_records ?s0 = []"
    by (simp add: started_def start_debate_def demo_request_def Let_def empty_orchestrator_def)
  have tot: "total_rounds ?ctx = 2" by simp
  have len: "length (phases (ctx_template ?ctx)) = 3"
    by (simp add: demo_template_def three_phases_def)
  have nv: "\<forall>ph\<in>set (phases (ctx_template ?ctx)). role ph \<noteq> PhaseRole_vote"
    by (simp add: demo_template_def three_phases_def demo_phase_def)
  have nm: "moderator (ctx_template ?ctx) = None"
    by (simp add: demo_template_def)
  from two_rounds_three_phases[OF st tot len nv nm, of E] p0 f0 show ?thesis
    by simp
qed

section \<open>What the engine's steps can change\<close>

lemma tally_yes:
  "tally_votes U [\<lparr>phase_id = a1, participant_id = b1, po_output = u ''Vote: YES''\<rparr>,
      \<lparr>phase_id = a2, participant_id = b2, po_output = u ''Vote: YES''\<rparr>,
      \<lparr>phase_id = a3, participant_id = b3, po_output = u ''Vote: YES''\<rparr>]
   = Inr ([\<lparr>v_participant_id = b1, raw_output = u ''Vote: YES'', parsed_vote = VoteValue_yes\<rparr>,
           \<lparr>v_participant_id = b2, raw_output = u ''Vote: YES'', parsed_vote = VoteValue_yes\<rparr>,
           \<lparr>v_participant_id = b3, raw_output = u ''Vote: YES'', parsed_vote = VoteValue_yes\<rparr>],
          RoundOutcome_yes)"
  by (simp add: tally_votes_def parse_vote_examples)

lemma voted_facts:
  "status_of voted (u ''r'') = Some RunStatus_completed"
  "final_records voted = [\<lparr>debate_id = u ''r'', f_title = u ''T'', final_outcome = RoundOutcome_yes\<rparr>]"
  "run_context voted (u ''r'') = None"
  by (simp_all add: voted_def yes_votes_def answering_def started_def start_debate_def
      demo_request_def demo_template_def demo_phase_def demo_participant_def
      empty_orchestrator_def advance_debate_def execute_phase_step_def step_phase_def
      execute_phase_eq end_phase_def finalize_def Let_def terminal_def new_round_def
      fan_out_def run_one_def as_completed_def phase_output_def tally_yes modify_run_def
      modify_round_def add_outputs_def status_of_def deref_def)

lemma evolves_at_refl [simp]: "evolves_at run_id s s"
  by (simp add: evolves_at_def)

lemma evolves_at_trans:
  assumes "evolves_at run_id s s1" "evolves_at run_id s1 s2"
  shows "evolves_at run_id s s2"
proof -
  have c1: "run_context s1 run_id = None \<or> run_context s1 run_id = run_context s run_id"
    and c2: "run_context s2 run_id = None \<or> run_context s2 run_id = run_context s1 run_id"
    and t1: "status_of s1 run_id = status_of s run_id
          \<or> (run_context s run_id \<noteq> None \<and> status_of s1 run_id = Some RunStatus_completed)"
    and t2: "status_of s2 run_id = status_of s1 run_id
          \<or> (run_context s1 run_id \<noteq> None \<and> status_of s2 run_id = Some RunStatus_completed)"
    and l1: "run_context s run_id = None \<longrightarrow>
          map_option (\<lambda>r. length (rounds r)) (runs s1 run_id)
            = map_option (\<lambda>r. length (rounds r)) (runs s run_id)"
    and l2: "run_context s1 run_id = None \<longrightarrow>
          map_option (\<lambda>r. length (rounds r)) (runs s2 run_id)
            = map_option (\<lambda>r. length (rounds r)) (runs s1 run_id)"
    using assms unfolding evolves_at_def by blast+
  have a: "run_context s2 run_id = None \<or> run_context s2 run_id = run_context s run_id"
    using c1 c2 by metis
  have b: "status_of s2 run_id = status_of s run_id
          \<or> (run_context s run_id \<noteq> None \<and> status_of s2 run_id = Some RunStatus_completed)"
    using c1 t1 t2 by metis
  have c: "run_context s run_id = None \<longrightarrow>
          map_option (\<lambda>r. length (rounds r)) (runs s2 run_id)
            = map_option (\<lambda>r. length (rounds r)) (runs s run_id)"
    using c1 l1 l2 by metis
  from a b c show ?thesis unfolding evolves_at_def by blast
qed

lemma evolves_at_same:
  "run_context s2 = run_context s1 \<Longrightarrow> runs s2 = runs s1 \<Longrightarrow> evolves_at run_id s1 s2"
  by (simp add: evolves_at_def status_of_def)

lemma evolves_at_modify_run:
  assumes "\<And>r. status (f r) = status r" "\<And>r. length (rounds (f r)) = length (rounds r)"
  shows "evolves_at rid s (modify_run run_id f s)"
  using assms
  by (cases "runs s run_id") (auto simp: evolves_at_def status_of_def runs_modify_run)

lemma evolves_at_modify_round: "evolves_at rid s (modify_round run_id pos f s)"
  unfolding modify_round_def by (rule evolves_at_modify_run) simp_all

lemma evolves_at_finalize: "evolves_at rid s (snd (finalize run_id s))"
  by (auto simp: evolves_at_def finalize_def status_of_def Let_def split: option.splits)

lemma evolves_at_end_phase:
  "end_phase E run_id pos phase outs s = Inr s' \<Longrightarrow> evolves_at rid s s'"
  by (auto simp: end_phase_def evolves_at_modify_round split: if_splits sum.splits prod.splits)

lemma evolves_at_new_round:
  assumes "run_context s run_id = Some ctx" "runs s run_id = Some r"
  shows "evolves_at rid s (s\<lparr>runs := (runs s)(run_id \<mapsto> r\<lparr>rounds := rounds r @ [x]\<rparr>)\<rparr>)"
  using assms by (auto simp: evolves_at_def status_of_def)

lemma evolves_at_requests [simp]: "evolves_at rid s (s\<lparr>requests := n\<rparr>)"
  by (rule evolves_at_same) simp_all

lemma evolves_at_add_outputs: "evolves_at rid s (modify_run run_id (add_outputs pos outs) s)"
  by (rule evolves_at_modify_run) simp_all

lemma evolves_at_run_phases:
  "evolves_at rid s (snd (run_phases E run_id run T k rn pos phs s))"
proof (induction phs arbitrary: s)
  case Nil
  show ?case by (simp split: option.split)
next
  case (Cons ph rest)
  let ?s1 = "s\<lparr>requests := requests s + length (participants T)\<rparr>"
  have 1: "evolves_at rid s ?s1" by simp
  show ?case
  proof (cases "as_completed E (requests s)
                  (fan_out E T ph (deref s run_id run) rn (requests s)) \<noteq> []")
    case True
    then show ?thesis using 1 by (simp add: Let_def)
  next
    case False
    show ?thesis
    proof (cases "end_phase E run_id pos ph [] ?s1")
      case (Inl e)
      with False 1 show ?thesis by (simp add: Let_def)
    next
      case (Inr s2)
      then have "evolves_at rid ?s1 s2" by (rule evolves_at_end_phase)
      with 1 have "evolves_at rid s s2" by (rule evolves_at_trans)
      then have "evolves_at rid s (snd (run_phases E run_id run T k rn pos rest s2))"
        using Cons[of s2] by (rule evolves_at_trans)
      with False Inr show ?thesis by (simp add: Let_def)
    qed
  qed
qed

lemma evolves_at_rounds_loop:
  "evolves_at rid s (snd (rounds_loop E run_id run k s))"
proof (induction k arbitrary: s)
  case 0
  have "evolves_at rid s (snd (finalize run_id s))" by (rule evolves_at_finalize)
  then show ?case by (cases "finalize run_id s") (auto split: sum.split)
next
  case (Suc k)
  show ?case
  proof (cases "run_context s run_id")
    case None
    then show ?thesis using Suc[of s] by simp
  next
    case (Some ctx)
    show ?thesis
    proof (cases "runs s run_id")
      case None
      with Some show ?thesis using Suc[of s] by simp
    next
      case (Some r)
      let ?s1 = "s\<lparr>runs := (runs s)(run_id \<mapsto>
                      r\<lparr>rounds := rounds r @ [new_round (int (length (rounds r)) + 1)]\<rparr>)\<rparr>"
      let ?rp = "run_phases E run_id run (ctx_template ctx) k (int (length (rounds r)) + 1)
                   (nat (int (length (rounds r)) + 1 - 1)) (phases (ctx_template ctx)) ?s1"
      have 1: "evolves_at rid s ?s1"
        using \<open>run_context s run_id = Some ctx\<close> Some by (rule evolves_at_new_round)
      have 2: "evolves_at rid s (snd ?rp)"
        using 1 evolves_at_run_phases by (rule evolves_at_trans)
      have 3: "evolves_at rid s (snd (rounds_loop E run_id run k (snd ?rp)))"
        using 2 Suc by (rule evolves_at_trans)
      show ?thesis
      proof (cases ?rp)
        case (Pair x s2)
        with 2 3 \<open>run_context s run_id = Some ctx\<close> Some show ?thesis
          by (cases x) (simp_all add: Let_def)
      qed
    qed
  qed
qed

lemma evolves_at_task_step: "evolves_at rid s (snd (task_step E run_id t s))"
proof (cases t)
  case Created
  then show ?thesis
    by (simp add: evolves_at_rounds_loop split: option.split)
next
  case (InPhase run T k rn pos ph pending outs rest)
  let ?po = "map (phase_output ph) (take 1 pending)"
  let ?s1 = "fold (append_output run_id pos) ?po s"
  have 1: "evolves_at rid s ?s1"
    by (simp only: fold_append_output evolves_at_add_outputs)
  show ?thesis
  proof (cases "drop 1 pending \<noteq> []")
    case True
    with InPhase 1 show ?thesis by (simp add: Let_def)
  next
    case False
    show ?thesis
    proof (cases "end_phase E run_id pos ph (outs @ ?po) ?s1")
      case (Inl e)
      with InPhase False 1 show ?thesis by (simp add: Let_def)
    next
      case (Inr s2)
      let ?rp = "run_phases E run_id run T k rn pos rest s2"
      from Inr have "evolves_at rid ?s1 s2" by (rule evolves_at_end_phase)
      with 1 have 2: "evolves_at rid s s2" by (rule evolves_at_trans)
      have 3: "evolves_at rid s (snd ?rp)"
        using 2 evolves_at_run_phases by (rule evolves_at_trans)
      have 4: "evolves_at rid s (snd (rounds_loop E run_id run k (snd ?rp)))"
        using 3 evolves_at_rounds_loop by (rule evolves_at_trans)
      show ?thesis
      proof (cases ?rp)
        case (Pair x s3)
        with InPhase False Inr 3 4 show ?thesis
          by (cases x) (simp_all add: Let_def)
      qed
    qed
  qed
next
  case (InModerator run k pos answer)
  show ?thesis
  proof (cases answer)
    case (Inl exc)
    with InModerator show ?thesis by simp
  next
    case (Inr summary)
    have "evolves_at rid s (snd (rounds_loop E run_id run k
            (modify_round run_id pos (\<lambda>rr. rr\<lparr>moderator_summary := Some summary\<rparr>) s)))"
      using evolves_at_modify_round evolves_at_rounds_loop by (rule evolves_at_trans)
    with InModerator Inr show ?thesis by simp
  qed
next
  case (Finished r)
  then show ?thesis by simp
qed

lemma evolves_at_resume: "evolves_at rid s (resume E run_id s)"
proof (cases "tasks s run_id")
  case None
  then show ?thesis by (simp add: resume_def)
next
  case (Some t)
  obtain t' s' where ts: "task_step E run_id t s = (t', s')" by (cases "task_step E run_id t s")
  then have 1: "evolves_at rid s s'"
    using evolves_at_task_step[of rid s E run_id t] by simp
  have "evolves_at rid s' (s'\<lparr>tasks := m\<rparr>)" for m
    by (rule evolves_at_same) simp_all
  with 1 have "evolves_at rid s (s'\<lparr>tasks := m\<rparr>)" for m
    by (rule evolves_at_trans)
  with Some ts show ?thesis
    by (cases t') (simp_all add: resume_def)
qed

lemma evolves_at_step_phase:
  assumes "run_context s run_id = Some ctx" "runs s run_id = Some run0"
  shows "evolves_at rid s (snd (step_phase E run_id ctx run0 r p s))"
proof -
  let ?T = "ctx_template ctx"
  let ?run = "if length (rounds run0) \<le> r
              then run0\<lparr>rounds := rounds run0 @ [new_round (int r + 1)]\<rparr> else run0"
  let ?s1 = "s\<lparr>runs := (runs s)(run_id \<mapsto> ?run)\<rparr>"
  have 1: "evolves_at rid s ?s1"
    using assms by (auto simp: evolves_at_def status_of_def)
  show ?thesis
  proof (cases "length (phases ?T) \<le> p \<or> length (rounds ?run) \<le> r")
    case True
    with 1 show ?thesis by (auto simp: step_phase_def Let_def)
  next
    case False
    let ?ph = "phases ?T ! p"
    obtain outs s2 where ex: "execute_phase E ?T ?ph run_id ?run (int r + 1) r ?s1 = (outs, s2)"
      by (cases "execute_phase E ?T ?ph run_id ?run (int r + 1) r ?s1")
    then have "s2 = modify_run run_id (add_outputs r outs)
                      (?s1\<lparr>requests := requests ?s1 + length (participants ?T)\<rparr>)"
      by (auto simp: execute_phase_eq)
    then have "evolves_at rid ?s1 s2"
      using evolves_at_trans[OF evolves_at_requests evolves_at_add_outputs] by simp
    with 1 have 2: "evolves_at rid s s2" by (rule evolves_at_trans)
    show ?thesis
    proof (cases "end_phase E run_id r ?ph outs s2")
      case (Inl e)
      with False ex 2 show ?thesis by (simp add: step_phase_def Let_def)
    next
      case (Inr s3)
      then have "evolves_at rid s2 s3" by (rule evolves_at_end_phase)
      with 2 have 3: "evolves_at rid s s3" by (rule evolves_at_trans)
      have 4: "evolves_at rid s (s3\<lparr>requests := n\<rparr>)" for n
        using 3 evolves_at_requests by (rule evolves_at_trans)
      have 5: "evolves_at rid s (modify_round run_id r f (s3\<lparr>requests := n\<rparr>))" for n f
        using 4 evolves_at_modify_round by (rule evolves_at_trans)
      have pr: "evolves_at rid s x \<Longrightarrow> evolves_at rid s (x\<lparr>progress := m\<rparr>)" for x m
        by (erule evolves_at_trans) (rule evolves_at_same, simp_all)
      have fin: "evolves_at rid s x \<Longrightarrow> evolves_at rid s (snd (finalize run_id x))" for x
        by (erule evolves_at_trans) (rule evolves_at_finalize)
      from False ex Inr show ?thesis
        by (auto simp: step_phase_def Let_def split: option.split sum.split
            intro!: fin pr 3 4 5)
    qed
  qed
qed

lemma evolves_at_execute_phase_step:
  "evolves_at rid s (snd (execute_phase_step E run_id s))"
proof (cases "run_context s run_id")
  case None
  then show ?thesis by (simp add: execute_phase_step_def)
next
  case (Some ctx)
  show ?thesis
  proof (cases "runs s run_id")
    case None
    with Some show ?thesis by (simp add: execute_phase_step_def)
  next
    case (Some run)
    show ?thesis
    proof (cases "progress s run_id")
      case None
      with Some \<open>run_context s run_id = Some ctx\<close> show ?thesis
        by (simp add: execute_phase_step_def)
    next
      case (Some c)
      obtain r p where c: "c = (r, p)" by (cases c)
      have "evolves_at rid s (snd (finalize run_id s))" by (rule evolves_at_finalize)
      moreover have "evolves_at rid s (snd (step_phase E run_id ctx run r p s))"
        using \<open>run_context s run_id = Some ctx\<close> \<open>runs s run_id = Some run\<close>
        by (rule evolves_at_step_phase)
      ultimately show ?thesis
        using Some c \<open>run_context s run_id = Some ctx\<close> \<open>runs s run_id = Some run\<close>
        by (simp add: execute_phase_step_def)
    qed
  qed
qed

lemma evolves_at_advance: "evolves_at rid s (snd (advance_debate E run_id s))"
proof -
  have "snd (advance_debate E run_id s) = s
      \<or> snd (advance_debate E run_id s) = snd (execute_phase_step E run_id s)"
    by (cases "execute_phase_step E run_id s")
      (auto simp: advance_debate_def split: option.splits sum.splits)
  then show ?thesis
    using evolves_at_execute_phase_step[of rid s E run_id] by auto
qed

section \<open>A call of advance, piece by piece\<close>

lemma evolves_at_progress: "evolves_at rid s (s\<lparr>progress := m\<rparr>)"
  by (rule evolves_at_same) simp_all

lemma evolves_at_close_step: "evolves_at rid s (snd (close_step run_id ctx run cursor s))"
proof -
  let ?s5 = "s\<lparr>progress := (progress s)(run_id \<mapsto> cursor)\<rparr>"
  have 1: "evolves_at rid s ?s5" by (rule evolves_at_progress)
  have 2: "evolves_at rid s (snd (finalize run_id ?s5))"
    using 1 evolves_at_finalize by (rule evolves_at_trans)
  show ?thesis
    using 1 2 by (auto simp: close_step_def Let_def split: prod.splits sum.splits)
qed

lemma evolves_at_finish_phase:
  "evolves_at rid s (snd (finish_phase E run_id ctx run r p phase outs s))"
proof (cases "end_phase E run_id r phase outs s")
  case (Inl e)
  then show ?thesis by (simp add: finish_phase_def)
next
  case (Inr s3)
  then have 1: "evolves_at rid s s3" by (rule evolves_at_end_phase)
  have 2: "evolves_at rid s (snd (close_step run_id ctx run cur s3))" for cur
    using 1 evolves_at_close_step by (rule evolves_at_trans)
  have 3: "evolves_at rid s (s3\<lparr>requests := n\<rparr>)" for n
    using 1 evolves_at_requests by (rule evolves_at_trans)
  show ?thesis using Inr 2 3
    by (auto simp: finish_phase_def split: option.splits)
qed

lemma evolves_at_fold_append_output:
  "evolves_at rid s (fold (append_output run_id pos) pos_outs s)"
proof (induction pos_outs arbitrary: s)
  case Nil
  show ?case by simp
next
  case (Cons po pos_outs)
  have "evolves_at rid s (append_output run_id pos po s)"
    by (simp add: append_output_def evolves_at_modify_round)
  then show ?case using Cons[of "append_output run_id pos po s"]
    by (auto intro: evolves_at_trans)
qed

lemma evolves_at_then_finish_phase:
  "evolves_at rid s s1 \<Longrightarrow> evolves_at rid s (snd (finish_phase E run_id ctx run r p phase outs s1))"
  by (erule evolves_at_trans) (rule evolves_at_finish_phase)

lemma evolves_at_then_close_step:
  "evolves_at rid s s1 \<Longrightarrow> evolves_at rid s (snd (close_step run_id ctx run cur s1))"
  by (erule evolves_at_trans) (rule evolves_at_close_step)

lemma evolves_at_call_step: "evolves_at rid s (snd (call_step E run_id c s))"
proof (cases c)
  case (InStep ctx run r p phase pending outputs)
  then show ?thesis
    by (auto simp: Let_def
        intro!: evolves_at_then_finish_phase evolves_at_fold_append_output)
next
  case (InSummary ctx run r answer)
  then show ?thesis
    by (auto split: sum.splits intro!: evolves_at_then_close_step evolves_at_modify_round)
next
  case (Returned r)
  then show ?thesis by simp
qed

lemma evolves_at_enter_phase:
  "evolves_at rid s (snd (enter_phase E run_id ctx run r p s))"
  by (auto simp: enter_phase_def Let_def intro!: evolves_at_then_finish_phase)

lemma evolves_at_then_enter_phase:
  "evolves_at rid s s1 \<Longrightarrow> evolves_at rid s (snd (enter_phase E run_id ctx run r p s1))"
  by (erule evolves_at_trans) (rule evolves_at_enter_phase)

lemma evolves_at_begin_advance: "evolves_at rid s (snd (begin_advance E run_id s))"
proof (cases "run_context s run_id")
  case None
  then show ?thesis by (simp add: begin_advance_def)
next
  case (Some ctx)
  note ctx = this
  show ?thesis
  proof (cases "runs s run_id")
    case None
    then show ?thesis using ctx by (simp add: begin_advance_def)
  next
    case (Some run)
    have fin: "evolves_at rid s (snd (finalize run_id s))" by (rule evolves_at_finalize)
    have new: "evolves_at rid s (s\<lparr>runs := (runs s)(run_id \<mapsto> run\<lparr>rounds := rounds run @ [x]\<rparr>)\<rparr>)"
      for x
      using ctx Some by (rule evolves_at_new_round)
    show ?thesis using ctx Some fin
      by (auto simp: begin_advance_def split: option.splits prod.splits sum.splits
          intro!: evolves_at_then_enter_phase new evolves_at_enter_phase)
  qed
qed

lemma evolves_at_occur: 
  assumes "ev \<noteq> Cancel rid" "\<And>payload. ev \<noteq> Start payload rid"
  shows "evolves_at rid (fst sv) (fst (occur E ev sv))"
proof -
  obtain s cs where sv: "sv = (s, cs)" by (cases sv)
  show ?thesis
  proof (cases ev)
    case (Start payload new_id)
    with assms(2) have "new_id \<noteq> rid" by auto
    then show ?thesis using Start sv
      by (auto simp: evolves_at_def start_debate_def status_of_def Let_def split: option.splits)
  next
    case (Advance run_id)
    then show ?thesis using sv evolves_at_begin_advance[of rid s E run_id]
      by (auto split: prod.splits)
  next
    case (Continue i)
    show ?thesis
    proof (cases "i < length cs")
      case True
      obtain run_id c where "cs ! i = (run_id, c)" by (cases "cs ! i")
      then show ?thesis using Continue sv True evolves_at_call_step[of rid s E run_id c]
        by (auto split: prod.splits)
    next
      case False
      then show ?thesis using Continue sv by simp
    qed
  next
    case (Cancel run_id)
    with assms(1) have "run_id \<noteq> rid" by simp
    then show ?thesis using Cancel sv
      by (auto simp: evolves_at_def cancel_def status_of_def Let_def split: option.splits)
  next
    case (Resume run_id)
    then show ?thesis using sv evolves_at_resume by simp
  qed
qed

section \<open>Calls and tasks without interruption\<close>

lemma run_call_0 [simp]: "run_call E run_id 0 cs = cs"
  by (cases cs) simp

lemma run_call_Returned [simp]: "run_call E run_id n (Returned r, s) = (Returned r, s)"
  by (induction n) simp_all

lemma close_step_Returned: "\<exists>r. fst (close_step run_id ctx run cur s) = Returned r"
  by (auto simp: close_step_def respond_def Let_def split: prod.splits sum.splits)

lemma run_call_close_step [simp]:
  "run_call E run_id n (close_step run_id ctx run cur s) = close_step run_id ctx run cur s"
  using close_step_Returned[of run_id ctx run cur s]
  by (cases "close_step run_id ctx run cur s") auto

lemma run_call_InStep:
  "pending \<noteq> [] \<Longrightarrow>
   run_call E run_id (length pending + k) (InStep ctx run r p phase pending outs, s)
     = run_call E run_id k
         (finish_phase E run_id ctx run r p phase (outs @ map (phase_output phase) pending)
            (fold (append_output run_id r) (map (phase_output phase) pending) s))"
proof (induction pending arbitrary: outs s)
  case Nil
  then show ?case by simp
next
  case (Cons x xs)
  show ?case
  proof (cases xs)
    case Nil
    then show ?thesis by (simp add: Let_def)
  next
    case (Cons y ys)
    then have "xs \<noteq> []" by simp
    from Cons.IH[OF this, of "outs @ [phase_output phase x]" "append_output run_id r (phase_output phase x) s"]
    show ?thesis using Cons by (simp add: Let_def)
  qed
qed

lemma run_call_finish_phase:
  "run_call E run_id (Suc k) (finish_phase E run_id ctx run r p phase outs s) =
     (case end_phase E run_id r phase outs s of
        Inl e \<Rightarrow> (Returned (Inl e), s)
      | Inr s3 \<Rightarrow>
          if int p = int (length (phases (ctx_template ctx))) - 1 then
            (case moderator (ctx_template ctx) of
               None \<Rightarrow> close_step run_id ctx run (r + 1, 0) s3
             | Some m \<Rightarrow>
                 (case moderator_request E m (deref s3 run_id run)
                         (rounds (deref s3 run_id run) ! r) (requests s3) of
                    Inl exc \<Rightarrow> (Returned (Inl (ChatFailure exc)), s3\<lparr>requests := requests s3 + 1\<rparr>)
                  | Inr summary \<Rightarrow>
                      close_step run_id ctx run (r + 1, 0)
                        (modify_round run_id r (\<lambda>rr. rr\<lparr>moderator_summary := Some summary\<rparr>)
                           (s3\<lparr>requests := requests s3 + 1\<rparr>))))
          else close_step run_id ctx run (r, p + 1) s3)"
  by (auto simp: finish_phase_def split: sum.splits option.splits)


lemma end_phase_slot:
  assumes "end_phase E run_id r phase outs s = Inr s3" "runs s run_id = Some x"
  shows "\<exists>y. runs s3 run_id = Some y \<and> topic y = topic x"
  using assms
  by (auto simp: end_phase_def modify_round_def runs_modify_run split: if_splits sum.splits)

lemma deref_Some: "runs s run_id = Some y \<Longrightarrow> deref s run_id x = y"
  by (simp add: deref_def)

lemma moderator_request_topic:
  "topic x = topic y \<Longrightarrow> moderator_request E m x rr n = moderator_request E m y rr n"
  by (simp add: moderator_request_def)

text \<open>
  The tail of \<open>step_phase\<close>, from the outputs of the phase on, is what the call does
  from the end of the phase's loop.
\<close>

lemma finish_phase_atomic:
  assumes "runs s2 run_id = Some x" "topic x = topic run" "topic run0 = topic run"
  shows "run_call E run_id (Suc k) (finish_phase E run_id ctx run0 r p phase outs s2) =
     (case
        (case end_phase E run_id r phase outs s2 of
           Inl e \<Rightarrow> (Inl e, s2)
         | Inr s3 \<Rightarrow>
             let last_phase = (int p = int (length (phases (ctx_template ctx))) - 1);
                 answer = (if last_phase then
                             (case moderator (ctx_template ctx) of
                                None \<Rightarrow> None
                              | Some m \<Rightarrow>
                                  Some (moderator_request E m run
                                          (rounds (deref s3 run_id run) ! r) (requests s3)))
                           else None)
             in (case answer of
                   Some (Inl exc) \<Rightarrow>
                     (Inl (ChatFailure exc), s3\<lparr>requests := requests s3 + 1\<rparr>)
                 | _ \<Rightarrow>
                     let s4 = (case answer of
                                 Some (Inr summary) \<Rightarrow>
                                   modify_round run_id r
                                     (\<lambda>rr. rr\<lparr>moderator_summary := Some summary\<rparr>)
                                     (s3\<lparr>requests := requests s3 + 1\<rparr>)
                               | _ \<Rightarrow> s3);
                         cursor = (if last_phase then (r + 1, 0) else (r, p + 1));
                         s5 = s4\<lparr>progress := (progress s4)(run_id \<mapsto> cursor)\<rparr>
                     in if total_rounds ctx \<le> int (fst cursor) then finalize run_id s5
                        else (Inr (), s5))) of
        (Inl e, s') \<Rightarrow> (Returned (Inl e), s')
      | (Inr _, s') \<Rightarrow> (respond run_id run0 s', s'))"
proof (cases "end_phase E run_id r phase outs s2")
  case (Inl e)
  then show ?thesis by (simp add: run_call_finish_phase)
next
  case (Inr s3)
  from end_phase_slot[OF Inr assms(1)] obtain y where y: "runs s3 run_id = Some y" "topic y = topic x"
    by blast
  have d: "deref s3 run_id z = y" for z using y(1) by (rule deref_Some)
  have m: "moderator_request E m y rr n = moderator_request E m run rr n" for m rr n
    using y(2) assms(2) by (simp add: moderator_request_def)
  show ?thesis
    by (simp add: run_call_finish_phase Inr d m close_step_def Let_def
        split: option.splits sum.splits prod.splits)
qed


lemma step_phase_call:
  assumes "runs s run_id = Some run0"
  shows "run_call E run_id (Suc (length (participants (ctx_template ctx))))
           (if length (rounds run0) \<le> r
            then enter_phase E run_id ctx run0 r p
                   (s\<lparr>runs := (runs s)(run_id \<mapsto>
                        run0\<lparr>rounds := rounds run0 @ [new_round (int r + 1)]\<rparr>)\<rparr>)
            else enter_phase E run_id ctx run0 r p s)
       = (case step_phase E run_id ctx run0 r p s of
            (Inl e, s') \<Rightarrow> (Returned (Inl e), s')
          | (Inr _, s') \<Rightarrow> (respond run_id run0 s', s'))"
proof -
  define run where "run = (if length (rounds run0) \<le> r
      then run0\<lparr>rounds := rounds run0 @ [new_round (int r + 1)]\<rparr> else run0)"
  define s1 where "s1 = s\<lparr>runs := (runs s)(run_id \<mapsto> run)\<rparr>"
  have keep: "s\<lparr>runs := (runs s)(run_id \<mapsto> run0)\<rparr> = s"
    using assms by (simp add: map_upd_triv)
  have lhs: "(if length (rounds run0) \<le> r
            then enter_phase E run_id ctx run0 r p
                   (s\<lparr>runs := (runs s)(run_id \<mapsto>
                        run0\<lparr>rounds := rounds run0 @ [new_round (int r + 1)]\<rparr>)\<rparr>)
            else enter_phase E run_id ctx run0 r p s) = enter_phase E run_id ctx run0 r p s1"
    using keep by (simp add: s1_def run_def)
  have slot: "runs s1 run_id = Some run" by (simp add: s1_def)
  have topic: "topic run = topic run0" by (simp add: run_def)
  have d: "deref s1 run_id z = run" for z using slot by (rule deref_Some)
  show ?thesis
  proof (cases "length (phases (ctx_template ctx)) \<le> p \<or> length (rounds run) \<le> r")
    case True
    then have "step_phase E run_id ctx run0 r p s = (Inl IndexError, s1)"
      by (auto simp: step_phase_def Let_def run_def s1_def)
    moreover from True have "enter_phase E run_id ctx run0 r p s1 = (Returned (Inl IndexError), s1)"
      by (auto simp: enter_phase_def d Let_def)
    ultimately show ?thesis unfolding lhs by simp
  next
    case False
    define phase where "phase = phases (ctx_template ctx) ! p"
    define results where "results = as_completed E (requests s1)
        (fan_out E (ctx_template ctx) phase run (int r + 1) (requests s1))"
    define s2 where "s2 = s1\<lparr>requests := requests s1 + length (participants (ctx_template ctx))\<rparr>"
    define outs where "outs = map (phase_output phase) results"
    define s2' where "s2' = fold (append_output run_id r) outs s2"
    have len: "length results = length (participants (ctx_template ctx))"
      by (simp add: results_def length_as_completed length_fan_out)
    have ex: "execute_phase E (ctx_template ctx) (phases (ctx_template ctx) ! p) run_id run
                (int r + 1) r s1 = (outs, s2')"
      by (simp add: execute_phase_def Let_def outs_def s2'_def results_def s2_def phase_def)
    have slot2: "runs s2' run_id = Some (add_outputs r outs run)"
      using slot by (simp add: s2'_def s2_def fold_append_output runs_modify_run)
    have t2: "topic (add_outputs r outs run) = topic run" by (simp add: add_outputs_def)
    have ent: "enter_phase E run_id ctx run0 r p s1 =
        (if results \<noteq> [] then (InStep ctx run0 r p phase results [], s2)
         else finish_phase E run_id ctx run0 r p phase [] s2)"
      using False by (simp add: enter_phase_def d Let_def phase_def results_def s2_def)
    have run: "run_call E run_id (Suc (length (participants (ctx_template ctx))))
                 (enter_phase E run_id ctx run0 r p s1)
        = run_call E run_id (Suc (if results = [] then length (participants (ctx_template ctx)) else 0))
            (finish_phase E run_id ctx run0 r p phase outs s2')"
    proof (cases "results = []")
      case True
      then show ?thesis by (simp add: ent outs_def s2'_def)
    next
      case ne: False
      from run_call_InStep[OF ne, of E run_id "Suc 0" ctx run0 r p phase "[]" s2]
      show ?thesis using ne by (simp add: ent len outs_def s2'_def)
    qed
    have sp0: "step_phase E run_id ctx run0 r p s =
      (if length (phases (ctx_template ctx)) \<le> p then (Inl IndexError, s1)
       else if length (rounds run) \<le> r then (Inl IndexError, s1)
       else
         let phase = phases (ctx_template ctx) ! p;
             (outputs, s2) = execute_phase E (ctx_template ctx) phase run_id run (int r + 1) r s1
         in (case end_phase E run_id r phase outputs s2 of
               Inl e \<Rightarrow> (Inl e, s2)
             | Inr s3 \<Rightarrow>
                 let last_phase = (int p = int (length (phases (ctx_template ctx))) - 1);
                     answer = (if last_phase then
                                 (case moderator (ctx_template ctx) of
                                    None \<Rightarrow> None
                                  | Some m \<Rightarrow>
                                      Some (moderator_request E m run
                                              (rounds (deref s3 run_id run) ! r) (requests s3)))
                               else None)
                 in (case answer of
                       Some (Inl exc) \<Rightarrow>
                         (Inl (ChatFailure exc), s3\<lparr>requests := requests s3 + 1\<rparr>)
                     | _ \<Rightarrow>
                         let s4 = (case answer of
                                     Some (Inr summary) \<Rightarrow>
                                       modify_round run_id r
                                         (\<lambda>rr. rr\<lparr>moderator_summary := Some summary\<rparr>)
                                         (s3\<lparr>requests := requests s3 + 1\<rparr>)
                                   | _ \<Rightarrow> s3);
                             cursor = (if last_phase then (r + 1, 0) else (r, p + 1));
                             s5 = s4\<lparr>progress := (progress s4)(run_id \<mapsto> cursor)\<rparr>
                         in if total_rounds ctx \<le> int (fst cursor) then finalize run_id s5
                            else (Inr (), s5))))"
      unfolding step_phase_def run_def s1_def Let_def by (rule refl)
    have c1: "(length (phases (ctx_template ctx)) \<le> p) = False"
      and c2: "(length (rounds run) \<le> r) = False"
      using False by simp_all
    note sp = sp0[unfolded c1 c2 if_False Let_def ex prod.case]
    note A = run[unfolded finish_phase_atomic[OF slot2 t2 topic[symmetric]] Let_def phase_def]
    show ?thesis unfolding lhs by (simp only: A sp)
  qed
qed


text \<open>
  A call of \<open>advance_debate\<close> whose pieces run without interruption returns what
  \<open>advance_debate\<close> taken as one step returns, and leaves the same state.
\<close>

lemma advance_without_interruption:
  "run_call E run_id
     (Suc (case run_context s run_id of
             None \<Rightarrow> 0 | Some ctx \<Rightarrow> length (participants (ctx_template ctx))))
     (begin_advance E run_id s)
   = (Returned (fst (advance_debate E run_id s)), snd (advance_debate E run_id s))"
proof (cases "run_context s run_id")
  case None
  then show ?thesis by (simp add: begin_advance_def advance_debate_def)
next
  case (Some ctx)
  note ctx = this
  show ?thesis
  proof (cases "runs s run_id")
    case None
    then show ?thesis using ctx by (simp add: begin_advance_def advance_debate_def)
  next
    case (Some run)
    note run = this
    show ?thesis
    proof (cases "mode run \<noteq> RunMode_step \<or> terminal (status run) \<or> progress s run_id = None")
      case True
      then show ?thesis using ctx run
        by (auto simp: begin_advance_def advance_debate_def execute_phase_step_def)
    next
      case False
      then obtain r p where cur: "progress s run_id = Some (r, p)" by auto
      show ?thesis
      proof (cases "total_rounds ctx \<le> int r")
        case True
        then show ?thesis using ctx run False cur
          by (auto simp: begin_advance_def advance_debate_def execute_phase_step_def respond_def
              split: prod.splits sum.splits)
      next
        case nf: False
        have b: "begin_advance E run_id s =
            (if length (rounds run) \<le> r
             then enter_phase E run_id ctx run r p
                    (s\<lparr>runs := (runs s)(run_id \<mapsto>
                         run\<lparr>rounds := rounds run @ [new_round (int r + 1)]\<rparr>)\<rparr>)
             else enter_phase E run_id ctx run r p s)"
          using ctx run False cur nf by (simp add: begin_advance_def)
        have a: "advance_debate E run_id s =
            (case step_phase E run_id ctx run r p s of
               (Inl e, s') \<Rightarrow> (Inl e, s')
             | (Inr _, s') \<Rightarrow>
                 (Inr \<lparr>debate = deref s' run_id run,
                       is_done = terminal (status (deref s' run_id run))\<rparr>, s'))"
          using ctx run False cur nf by (simp add: advance_debate_def execute_phase_step_def)
        show ?thesis
          unfolding b a using ctx step_phase_call[OF run, of E ctx r p]
          by (simp add: respond_def split: prod.splits sum.splits)
      qed
    qed
  qed
qed


lemma run_task_0 [simp]: "run_task E run_id 0 ts = ts"
  by (cases ts) simp

lemma run_task_InPhase:
  "pending \<noteq> [] \<Longrightarrow>
   run_task E run_id (length pending) (InPhase run T k rn pos phase pending outs rest, s)
     = (let outs' = outs @ map (phase_output phase) pending;
            s1 = fold (append_output run_id pos) (map (phase_output phase) pending) s
        in case end_phase E run_id pos phase outs' s1 of
             Inl e \<Rightarrow> (Finished (Inl e), s1)
           | Inr s2 \<Rightarrow>
               (case run_phases E run_id run T k rn pos rest s2 of
                  (Inl t, s3) \<Rightarrow> (t, s3)
                | (Inr _, s3) \<Rightarrow> rounds_loop E run_id run k s3))"
proof (induction pending arbitrary: outs s)
  case Nil
  then show ?case by simp
next
  case (Cons x xs)
  show ?case
  proof (cases xs)
    case Nil
    then show ?thesis by (simp add: Let_def cong del: sum.case_cong_weak)
  next
    case (Cons y ys)
    then have "xs \<noteq> []" by simp
    from Cons.IH[OF this, of "outs @ [phase_output phase x]"
        "append_output run_id pos (phase_output phase x) s"]
    show ?thesis using Cons by (simp add: Let_def)
  qed
qed

text \<open>
  A phase of an auto-mode round, its pieces run without interruption, is
  \<open>execute_phase\<close> followed by the tally and the rest of the round: what is proved of
  \<open>execute_phase\<close> holds of the phases of the background task as well.
\<close>

lemma phase_without_interruption:
  assumes "participants T \<noteq> []"
  shows "\<exists>t s1. run_phases E run_id run T k rn pos (phase # rest) s = (Inl t, s1)
     \<and> run_task E run_id (length (participants T)) (t, s1)
       = (case execute_phase E T phase run_id (deref s run_id run) rn pos s of
            (outs, s1) \<Rightarrow>
              (case end_phase E run_id pos phase outs s1 of
                 Inl e \<Rightarrow> (Finished (Inl e), s1)
               | Inr s2 \<Rightarrow>
                   (case run_phases E run_id run T k rn pos rest s2 of
                      (Inl t, s3) \<Rightarrow> (t, s3)
                    | (Inr _, s3) \<Rightarrow> rounds_loop E run_id run k s3)))"
proof -
  define results where "results = as_completed E (requests s)
      (fan_out E T phase (deref s run_id run) rn (requests s))"
  have len: "length results = length (participants T)"
    by (simp add: results_def length_as_completed length_fan_out)
  with assms have ne: "results \<noteq> []" by auto
  have rp: "run_phases E run_id run T k rn pos (phase # rest) s =
      (Inl (InPhase run T k rn pos phase results [] rest),
       s\<lparr>requests := requests s + length (participants T)\<rparr>)"
    using ne by (simp add: Let_def results_def)
  have ex: "execute_phase E T phase run_id (deref s run_id run) rn pos s =
      (map (phase_output phase) results,
       fold (append_output run_id pos) (map (phase_output phase) results)
         (s\<lparr>requests := requests s + length (participants T)\<rparr>))"
    by (simp add: execute_phase_def Let_def results_def)
  show ?thesis
    unfolding rp ex using run_task_InPhase[OF ne, of E run_id run T k rn pos phase "[]" rest]
    by (simp add: len Let_def)
qed

section \<open>Cancellation\<close>

lemma occur_all_append: "occur_all E (evs @ evs') sv = occur_all E evs' (occur_all E evs sv)"
  by (simp add: occur_all_def)

lemma occur_all_Cons: "occur_all E (ev # evs) sv = occur_all E evs (occur E ev sv)"
  by (simp add: occur_all_def)

lemma occur_all_Nil: "occur_all E [] sv = sv"
  by (simp add: occur_all_def)

lemma frozen_evolves:
  assumes "frozen s run_id n" "evolves_at run_id s s'"
  shows "frozen s' run_id n"
  using assms unfolding frozen_def evolves_at_def round_count_def by metis

lemma frozen_cancel:
  "frozen s run_id n \<Longrightarrow> frozen (snd (cancel rid s)) run_id n"
  by (auto simp: frozen_def round_count_def cancel_def status_of_def Let_def split: option.splits)

lemma frozen_occur:
  assumes "frozen (fst sv) run_id n"
  shows "frozen (fst (occur E ev sv)) run_id n"
proof -
  obtain s cs where sv: "sv = (s, cs)" by (cases sv)
  from assms sv have dom: "run_id \<in> dom (runs s)"
    by (auto simp: frozen_def round_count_def)
  show ?thesis
  proof (cases "ev = Cancel run_id \<or> (\<exists>payload. ev = Start payload run_id)")
    case True
    then show ?thesis using assms sv dom by (auto simp: frozen_cancel)
  next
    case False
    then have "evolves_at run_id (fst sv) (fst (occur E ev sv))"
      by (intro evolves_at_occur) auto
    with assms show ?thesis by (rule frozen_evolves)
  qed
qed

lemma frozen_occur_all:
  "frozen (fst sv) run_id n \<Longrightarrow> frozen (fst (occur_all E evs sv)) run_id n"
  unfolding occur_all_def
  by (induction evs arbitrary: sv) (simp_all add: frozen_occur)

lemma cancel_frozen:
  "runs s run_id = Some run \<Longrightarrow> frozen (snd (cancel run_id s)) run_id (length (rounds run))"
  by (simp add: frozen_def round_count_def cancel_def status_of_def Let_def)

lemmas run_defs = answering_def started_def start_debate_def
  demo_request_def demo_template_def demo_phase_def demo_participant_def
  empty_orchestrator_def Let_def terminal_def new_round_def
  fan_out_def run_one_def as_completed_def phase_output_def modify_run_def
  modify_round_def add_outputs_def status_of_def deref_def resume_def cancel_def
  end_phase_def finalize_def append_output_def

lemmas call_defs = begin_advance_def enter_phase_def finish_phase_def close_step_def
  respond_def

lemmas in_flight_defs = canceled_in_flight_def in_flight_def ok_env_def two_phases_def
  output_phases_def round_count_def occur_all_def

text \<open>
  C3. The claim: after a cancel the engine stops at the next phase boundary, once the
  calls of the phase in flight have completed. The code has no checkpoint between the
  phases of a round: \<open>_execute_round\<close> looks for the context of the run only where a
  round begins, and the status is not read at all. A run of one round with the phases
  p1 and p2 is canceled while the three calls of p1 are in flight, no output recorded
  yet. When these calls have completed the background task has sent the three requests
  of p2, and when those have completed the round holds the outputs of both phases.
\<close>

theorem canceled_run_enters_next_phase:
  "status_of canceled_in_flight (u ''r'') = Some RunStatus_canceled
   \<and> output_phases canceled_in_flight = Some []
   \<and> requests canceled_in_flight = 3
   \<and> output_phases (fst (occur_all ok_env
                             [Resume (u ''r''), Resume (u ''r''), Resume (u ''r'')]
                             (canceled_in_flight, [])))
       = Some [u ''p1'', u ''p1'', u ''p1'']
   \<and> requests (fst (occur_all ok_env [Resume (u ''r''), Resume (u ''r''), Resume (u ''r'')]
                        (canceled_in_flight, []))) = 6
   \<and> output_phases (fst (occur_all ok_env
                             [Resume (u ''r''), Resume (u ''r''), Resume (u ''r''),
                              Resume (u ''r''), Resume (u ''r''), Resume (u ''r'')]
                             (canceled_in_flight, [])))
       = Some [u ''p1'', u ''p1'', u ''p1'', u ''p2'', u ''p2'', u ''p2'']"
  by (simp add: in_flight_defs run_defs)

text \<open>
  C3, as the code has it. Once cancel has set the status of a run to canceled, whatever
  happens next (pieces of the background task of this or another run, pieces of calls of
  advance, those in flight at the cancel among them, starts, further cancels, in any
  order and number), no RoundResult is appended to the run and its status stays
  canceled: neither the auto-mode loop nor the finalization overwrites it. The
  background task stops where the next round would begin; the phases of the round in
  progress it still runs.
\<close>

theorem canceled_run_gets_no_round:
  assumes "runs s run_id = Some run"
  shows "status_of (fst (occur_all E evs (snd (cancel run_id s), cs))) run_id
           = Some RunStatus_canceled
     \<and> round_count (fst (occur_all E evs (snd (cancel run_id s), cs))) run_id
           = Some (length (rounds run))"
  using frozen_occur_all[of "(snd (cancel run_id s), cs)" run_id "length (rounds run)" E evs]
    cancel_frozen[OF assms]
  by (simp add: frozen_def)

theorem canceled_run_gets_no_round_witness:
  "runs in_flight (u ''r'')
     = Some \<lparr>r_id = u ''r'', template_id = u ''t'', title = u ''T'', topic = u ''topic'',
             status = RunStatus_running, mode = RunMode_auto, rounds = [new_round 1]\<rparr>
   \<and> status_of (fst (occur_all ok_env
                         [Resume (u ''r''), Resume (u ''r''), Resume (u ''r''),
                          Resume (u ''r''), Advance (u ''r''), Resume (u ''r''),
                          Resume (u ''r''), Resume (u ''r'')]
                         (canceled_in_flight, []))) (u ''r'') = Some RunStatus_canceled
   \<and> round_count (fst (occur_all ok_env
                           [Resume (u ''r''), Resume (u ''r''), Resume (u ''r''),
                            Resume (u ''r''), Advance (u ''r''), Resume (u ''r''),
                            Resume (u ''r''), Resume (u ''r'')]
                           (canceled_in_flight, []))) (u ''r'') = Some 1"
proof -
  have r: "runs in_flight (u ''r'')
     = Some \<lparr>r_id = u ''r'', template_id = u ''t'', title = u ''T'', topic = u ''topic'',
             status = RunStatus_running, mode = RunMode_auto, rounds = [new_round 1]\<rparr>"
    by (simp add: in_flight_defs run_defs)
  from canceled_run_gets_no_round[OF r, of ok_env _ "[]"] r show ?thesis
    by (simp add: canceled_in_flight_def)
qed

section \<open>Terminal status\<close>

lemma ended_without_context_evolves:
  assumes "ended_without_context s run_id" "evolves_at run_id s s'"
  shows "ended_without_context s' run_id"
  using assms unfolding ended_without_context_def evolves_at_def by auto

lemma ended_without_context_occur:
  assumes "ended_without_context (fst sv) run_id"
  shows "ended_without_context (fst (occur E ev sv)) run_id"
proof -
  obtain s cs where sv: "sv = (s, cs)" by (cases sv)
  show ?thesis
  proof (cases "ev = Cancel run_id \<or> (\<exists>payload. ev = Start payload run_id)")
    case True
    then consider (canceled) "ev = Cancel run_id"
      | (started) payload where "ev = Start payload run_id" by auto
    then show ?thesis
    proof cases
      case canceled
      then show ?thesis using sv
        by (auto simp: ended_without_context_def cancel_def status_of_def Let_def
            split: option.splits)
    next
      case started
      show ?thesis
      proof (cases "run_id \<in> dom (runs s)")
        case True
        then show ?thesis using assms sv started by simp
      next
        case False
        then show ?thesis using assms sv started
          by (auto simp: ended_without_context_def start_debate_def status_of_def Let_def
              split: option.splits)
      qed
    qed
  next
    case False
    then have "evolves_at run_id (fst sv) (fst (occur E ev sv))"
      by (intro evolves_at_occur) auto
    with assms show ?thesis by (rule ended_without_context_evolves)
  qed
qed

lemma ended_without_context_occur_all:
  "ended_without_context (fst sv) run_id
     \<Longrightarrow> ended_without_context (fst (occur_all E evs sv)) run_id"
  unfolding occur_all_def
  by (induction evs arbitrary: sv) (simp_all add: ended_without_context_occur)

lemma ended_without_context_no_runs:
  "runs s = Map.empty \<Longrightarrow> ended_without_context s run_id"
  by (simp add: ended_without_context_def status_of_def)

lemma terminal_status_occur:
  assumes "ended_without_context (fst sv) run_id" "status_of (fst sv) run_id = Some st"
    and "st = RunStatus_completed \<or> st = RunStatus_failed \<or> st = RunStatus_canceled"
  shows "status_of (fst (occur E ev sv)) run_id
           = Some (if ev = Cancel run_id then RunStatus_canceled else st)"
proof -
  obtain s cs where sv: "sv = (s, cs)" by (cases sv)
  from assms(2) sv have dom: "run_id \<in> dom (runs s)" by (auto simp: status_of_def)
  show ?thesis
  proof (cases "ev = Cancel run_id \<or> (\<exists>payload. ev = Start payload run_id)")
    case True
    then show ?thesis using assms(2) sv dom
      by (auto simp: cancel_def status_of_def Let_def split: option.splits)
  next
    case False
    then have "evolves_at run_id (fst sv) (fst (occur E ev sv))"
      by (intro evolves_at_occur) auto
    with assms False show ?thesis
      unfolding evolves_at_def ended_without_context_def by auto
  qed
qed

lemma terminal_status_occur_all:
  assumes "ended_without_context (fst sv) run_id" "status_of (fst sv) run_id = Some st"
    and "st = RunStatus_completed \<or> st = RunStatus_failed \<or> st = RunStatus_canceled"
  shows "status_of (fst (occur_all E evs sv)) run_id
           = Some (if Cancel run_id \<in> set evs then RunStatus_canceled else st)"
  using assms
proof (induction evs arbitrary: sv st)
  case Nil
  then show ?case by (simp add: occur_all_Nil)
next
  case (Cons ev evs)
  let ?st = "if ev = Cancel run_id then RunStatus_canceled else st"
  have 1: "ended_without_context (fst (occur E ev sv)) run_id"
    using Cons.prems(1) by (rule ended_without_context_occur)
  have 2: "status_of (fst (occur E ev sv)) run_id = Some ?st"
    using Cons.prems by (rule terminal_status_occur)
  have 3: "?st = RunStatus_completed \<or> ?st = RunStatus_failed \<or> ?st = RunStatus_canceled"
    using Cons.prems(3) by simp
  from Cons.IH[OF 1 2 3] show ?case
    by (simp add: occur_all_Cons)
qed

lemma demo_store_no_runs: "runs (demo_store n phs) = Map.empty"
  by (simp add: demo_store_def empty_orchestrator_def)

text \<open>
  C5. The claim: no operation changes a status that is completed, failed or canceled; in
  particular a cancel leaves a completed run completed. \<open>cancel\<close> assigns the status
  without reading it. A step-mode run of one round with one vote phase is completed by
  its advance, with the FinalRecord of the outcome YES; a cancel then makes it canceled,
  and the FinalRecord stays.
\<close>

theorem cancel_overwrites_completed:
  "status_of voted (u ''r'') = Some RunStatus_completed
   \<and> status_of (snd (cancel (u ''r'') voted)) (u ''r'') = Some RunStatus_canceled
   \<and> final_records (snd (cancel (u ''r'') voted))
       = [\<lparr>debate_id = u ''r'', f_title = u ''T'', final_outcome = RoundOutcome_yes\<rparr>]"
proof -
  from voted_facts(1) obtain run where r: "runs voted (u ''r'') = Some run"
    by (auto simp: status_of_def)
  then have "status_of (snd (cancel (u ''r'') voted)) (u ''r'') = Some RunStatus_canceled"
    and "final_records (snd (cancel (u ''r'') voted)) = final_records voted"
    by (simp_all add: cancel_def status_of_def Let_def)
  with voted_facts(1,2) show ?thesis by simp
qed

text \<open>
  Two calls of advance on a step-mode run of one round with one vote phase, both in
  flight when the three answers of the first arrive: the first call completes the run.
\<close>

lemma completed_with_call_in_flight:
  "status_of (fst (occur_all yes_votes
       [Start (demo_request RunMode_step) (u ''r''), Advance (u ''r''), Advance (u ''r''),
        Continue 0, Continue 0, Continue 0]
       (demo_store 1 [demo_phase ''v'' PhaseRole_vote], []))) (u ''r'')
     = Some RunStatus_completed"
  by (simp add: occur_all_def demo_store_def yes_votes_def run_defs call_defs tally_yes
      execute_phase_eq)

text \<open>
  C5, as the code has it. Once the status of a run is completed, failed or canceled, it
  changes only under cancel: whatever happens next (starts, calls of advance and the
  pieces of those in flight, pieces of the background tasks, cancels of other runs, in
  any order and number), the status stays what it is; a cancel of the run makes it
  canceled, also when it was completed, and then it stays canceled. This holds in every
  state that the engine reaches from a store without runs.
\<close>

theorem terminal_status_changes_by_cancel_only:
  assumes "runs s0 = Map.empty"
    and "status_of (fst (occur_all E evs (s0, []))) run_id = Some st"
    and "st = RunStatus_completed \<or> st = RunStatus_failed \<or> st = RunStatus_canceled"
  shows "status_of (fst (occur_all E (evs @ evs') (s0, []))) run_id
           = Some (if Cancel run_id \<in> set evs' then RunStatus_canceled else st)"
proof -
  have "ended_without_context (fst (s0, [])) run_id"
    using assms(1) by (simp add: ended_without_context_no_runs)
  then have "ended_without_context (fst (occur_all E evs (s0, []))) run_id"
    by (rule ended_without_context_occur_all)
  from terminal_status_occur_all[OF this assms(2,3)] show ?thesis
    by (simp add: occur_all_append)
qed

theorem terminal_status_changes_by_cancel_only_witness:
  "runs (demo_store 1 [demo_phase ''v'' PhaseRole_vote]) = Map.empty
   \<and> status_of (fst (occur_all yes_votes
         [Start (demo_request RunMode_step) (u ''r''), Advance (u ''r''), Advance (u ''r''),
          Continue 0, Continue 0, Continue 0]
         (demo_store 1 [demo_phase ''v'' PhaseRole_vote], []))) (u ''r'')
       = Some RunStatus_completed
   \<and> status_of (fst (occur_all yes_votes
         ([Start (demo_request RunMode_step) (u ''r''), Advance (u ''r''), Advance (u ''r''),
           Continue 0, Continue 0, Continue 0]
          @ [Continue 1, Continue 1, Continue 1, Advance (u ''r''), Resume (u ''r''),
             Start (demo_request RunMode_auto) (u ''q''), Resume (u ''q''), Cancel (u ''q'')])
         (demo_store 1 [demo_phase ''v'' PhaseRole_vote], []))) (u ''r'')
       = Some RunStatus_completed"
proof -
  let ?s0 = "demo_store 1 [demo_phase ''v'' PhaseRole_vote]"
  let ?evs = "[Start (demo_request RunMode_step) (u ''r''), Advance (u ''r''),
               Advance (u ''r''), Continue 0, Continue 0, Continue 0]"
  let ?evs' = "[Continue 1, Continue 1, Continue 1, Advance (u ''r''), Resume (u ''r''),
                Start (demo_request RunMode_auto) (u ''q''), Resume (u ''q''),
                Cancel (u ''q'')]"
  have a: "runs ?s0 = Map.empty" by (rule demo_store_no_runs)
  have b: "status_of (fst (occur_all yes_votes ?evs (?s0, []))) (u ''r'')
             = Some RunStatus_completed"
    by (rule completed_with_call_in_flight)
  have q: "u ''q'' \<noteq> u ''r''" by (simp add: u_def)
  from terminal_status_changes_by_cancel_only[OF a b, of ?evs'] q
  have d: "status_of (fst (occur_all yes_votes (?evs @ ?evs') (?s0, []))) (u ''r'')
             = Some RunStatus_completed"
    by simp
  from a b d show ?thesis by (intro conjI)
qed

end
